theory Spec2Isabelle
  imports Main "HOL-Library.Word" "HOL-Library.List_Lexorder" "HOL-Library.Product_Lexorder"
    "HOL-Library.Code_Target_Nat"
begin

unbundle bit_operations_syntax

section \<open>Dirstate helpers: directory-wise path ordering\<close>

text \<open>
  The helpers are Pyrex code working on raw \<open>char *\<close> pointers. The process memory is a
  function from addresses to bytes, a pointer is an address and a string is a pointer
  with a size, as the C functions receive them. Two strings that start at the same
  address with the same size therefore hold the same bytes, which is what the identity
  shortcut of the comparison functions relies on. Sizes and list lengths are C
  \<open>int\<close>s in the source; they are natural numbers here, which is exact for every
  string and list shorter than \<open>2^30\<close> elements.
\<close>

type_synonym memory = "nat \<Rightarrow> char"

definition bytes_at :: "memory \<Rightarrow> nat \<Rightarrow> nat \<Rightarrow> string" where
  "bytes_at mem p n = map mem [p ..< p + n]"

definition sizeof_int :: nat where
  "sizeof_int = 4"

text \<open>\<open>_is_aligned\<close>: the pointer masked with \<open>sizeof(int) - 1\<close> is zero.\<close>

definition is_aligned :: "nat \<Rightarrow> bool" where
  "is_aligned ptr = ((ptr AND (sizeof_int - 1)) = 0)"

text \<open>
  Reading an \<open>int\<close> through an \<open>int *\<close>: the value is made of the \<open>sizeof(int)\<close>
  bytes at the address, so two reads are equal exactly when these bytes are.
\<close>

definition load_int :: "memory \<Rightarrow> nat \<Rightarrow> char list" where
  "load_int mem p = map mem [p ..< p + sizeof_int]"

text \<open>The word-wise loop of \<open>_cmp_by_dirs\<close>; it returns the two cursors.\<close>

function int_loop :: "memory \<Rightarrow> nat \<Rightarrow> nat \<Rightarrow> nat \<Rightarrow> nat \<Rightarrow> nat \<times> nat" where
  "int_loop mem cur_int1 end_int1 cur_int2 end_int2 =
     (if cur_int1 < end_int1 \<and> cur_int2 < end_int2 then
        (if load_int mem cur_int1 \<noteq> load_int mem cur_int2 then (cur_int1, cur_int2)
         else int_loop mem (cur_int1 + sizeof_int) end_int1 (cur_int2 + sizeof_int) end_int2)
      else (cur_int1, cur_int2))"
  by pat_completeness auto
termination
  by (relation "measure (\<lambda>(mem, c1, e1, c2, e2). e1 - c1)") (auto simp: sizeof_int_def)

text \<open>The byte-wise loop of \<open>_cmp_by_dirs\<close> with the three tests that follow it.\<close>

function byte_loop :: "memory \<Rightarrow> nat \<Rightarrow> nat \<Rightarrow> nat \<Rightarrow> nat \<Rightarrow> int" where
  "byte_loop mem cur1 end1 cur2 end2 =
     (if cur1 < end1 \<and> cur2 < end2 then
        (if mem cur1 = mem cur2 then byte_loop mem (cur1 + 1) end1 (cur2 + 1) end2
         else if mem cur1 = CHR ''/'' then - 1
         else if mem cur2 = CHR ''/'' then 1
         else if (of_char (mem cur1) :: nat) < of_char (mem cur2) then - 1
         else 1)
      else if cur1 < end1 then 1
      else if cur2 < end2 then - 1
      else 0)"
  by pat_completeness auto
termination
  by (relation "measure (\<lambda>(mem, c1, e1, c2, e2). e1 - c1)") auto

declare int_loop.simps [simp del] byte_loop.simps [simp del]

definition cmp_by_dirs :: "memory \<Rightarrow> nat \<Rightarrow> nat \<Rightarrow> nat \<Rightarrow> nat \<Rightarrow> int" where
  "cmp_by_dirs mem path1 size1 path2 size2 =
     (if path1 = path2 \<and> size1 = size2 then 0
      else
        let end1 = path1 + size1;
            end2 = path2 + size2;
            (cur1, cur2) =
              (if is_aligned path1 \<and> is_aligned path2 then
                 int_loop mem path1 (path1 + size1 - size1 mod sizeof_int)
                              path2 (path2 + size2 - size2 mod sizeof_int)
               else (path1, path2))
        in byte_loop mem cur1 end1 cur2 end2)"

text \<open>
  The Python entry points check their arguments with \<open>PyString_CheckExact\<close>. An
  argument is either a plain string object, given by the address of its bytes
  (\<open>PyString_AsString\<close>) and its size (\<open>PyString_Size\<close>), or any other object.
\<close>

datatype pyarg = PyString nat nat | NotAString

text \<open>
  The exceptions the code raises. An \<open>AssertionError\<close> carries the message of its
  \<open>raise\<close> statement: in the dirstate reader \<open>get_next() called when cur_str is NULL\<close>,
  \<open>get_next() called when there are no chars left\<close>, \<open>failed to find trailing NULL\<close>,
  \<open>tried to create a string with an invalid size\<close>, \<open>First character should be null\<close>,
  \<open>Bad parse, we expected to end on \n\<close> and \<open>We read the wrong number of entries\<close>; in
  the B-tree leaf parser \<open>invalid key, wanted segment from\<close>, \<open>last < self._start\<close>,
  \<open>Node did not start with "type=leaf"\<close>, \<open>Failed to find the value area\<close>,
  \<open>invalid key, loop_counter != self.ref_list_length\<close>,
  \<open>unexpected reference data present\<close> and \<open>self.bytes is not a string\<close>.
  \<open>OverflowError\<close> is what the conversion of a Python integer to a C \<open>int\<close> raises
  when the integer is outside the range of \<open>int\<close>.
\<close>

datatype failure =
    CurStrIsNull | NoCharsLeft | NoTrailingNull | InvalidSize | FirstNotNull | BadParse
  | WrongEntryCount | InvalidKeySegment | LastBeforeStart | NotTypeLeaf | NoValueArea
  | MissingRefList | UnexpectedRefData | BytesNotString

datatype error = TypeError | ValueError | OverflowError | AssertionError failure

fun cmp_by_dirs_c :: "memory \<Rightarrow> pyarg \<Rightarrow> pyarg \<Rightarrow> error + int" where
  "cmp_by_dirs_c mem NotAString path2 = Inl TypeError"
| "cmp_by_dirs_c mem (PyString p1 n1) NotAString = Inl TypeError"
| "cmp_by_dirs_c mem (PyString p1 n1) (PyString p2 n2) = Inr (cmp_by_dirs mem p1 n1 p2 n2)"

text \<open>The bytes of a plain string object.\<close>

fun str_of :: "memory \<Rightarrow> pyarg \<Rightarrow> string" where
  "str_of mem (PyString p n) = bytes_at mem p n"
| "str_of mem NotAString = []"

subsection \<open>The order the documentation names\<close>

text \<open>
  The docstring of \<open>cmp_by_dirs_c\<close> says the function is equivalent to
  \<open>cmp(path1.split('/'), path2.split('/'))\<close>. These are Python's \<open>str.split\<close> with a
  separator, and Python's \<open>cmp\<close> on byte strings and on lists of them.
\<close>

fun split_sep :: "char \<Rightarrow> string \<Rightarrow> string list" where
  "split_sep sep [] = [[]]"
| "split_sep sep (c # cs) =
     (if c = sep then [] # split_sep sep cs
      else (case split_sep sep cs of
              [] \<Rightarrow> [[c]]
            | w # ws \<Rightarrow> (c # w) # ws))"

fun py_cmp_str :: "string \<Rightarrow> string \<Rightarrow> int" where
  "py_cmp_str [] [] = 0"
| "py_cmp_str [] (y # ys) = - 1"
| "py_cmp_str (x # xs) [] = 1"
| "py_cmp_str (x # xs) (y # ys) =
     (if (of_char x :: nat) < of_char y then - 1
      else if (of_char y :: nat) < of_char x then 1
      else py_cmp_str xs ys)"

fun py_cmp_components :: "string list \<Rightarrow> string list \<Rightarrow> int" where
  "py_cmp_components [] [] = 0"
| "py_cmp_components [] (b # bs) = - 1"
| "py_cmp_components (a # as) [] = 1"
| "py_cmp_components (a # as) (b # bs) =
     (if py_cmp_str a b \<noteq> 0 then py_cmp_str a b else py_cmp_components as bs)"

subsection \<open>Comparing paths by directory block\<close>

text \<open>
  \<open>_my_memrchr\<close> walks from \<open>start + n - 1\<close> down to \<open>start\<close> and returns the first
  address holding \<open>c\<close>, or \<open>NULL\<close>.
\<close>

fun my_memrchr :: "memory \<Rightarrow> nat \<Rightarrow> char \<Rightarrow> nat \<Rightarrow> nat option" where
  "my_memrchr mem s c 0 = None"
| "my_memrchr mem s c (Suc n) =
     (if mem (s + n) = c then Some (s + n) else my_memrchr mem s c n)"

text \<open>
  \<open>memcmp\<close> of the C library compares \<open>n\<close> bytes as unsigned values. The standard fixes
  the sign of the result only; the model returns the difference of the first two bytes
  that differ, and nothing below depends on more than its sign.
\<close>

fun memcmp :: "memory \<Rightarrow> nat \<Rightarrow> nat \<Rightarrow> nat \<Rightarrow> int" where
  "memcmp mem b1 b2 0 = 0"
| "memcmp mem b1 b2 (Suc n) =
     (if mem b1 = mem b2 then memcmp mem (b1 + 1) (b2 + 1) n
      else int (of_char (mem b1)) - int (of_char (mem b2)))"

text \<open>
  \<open>_cmp_path_by_dirblock\<close>. When a path has no \<open>/\<close> its directory name is the C literal
  \<open>''\<close>; \<open>lit1\<close> and \<open>lit2\<close> are the addresses of the two literals of the source.
\<close>

definition split_path :: "memory \<Rightarrow> nat \<Rightarrow> nat \<Rightarrow> nat \<Rightarrow> nat \<times> nat \<times> nat \<times> nat" where
  "split_path mem lit path path_len =
     (case my_memrchr mem path (CHR ''/'') path_len of
        None \<Rightarrow> (lit, 0, path, path_len)
      | Some slash \<Rightarrow>
          (path, slash - path, slash + 1, path_len - (slash - path) - 1))"

definition cmp_path_by_dirblock ::
  "memory \<Rightarrow> nat \<Rightarrow> nat \<Rightarrow> nat \<Rightarrow> nat \<Rightarrow> nat \<Rightarrow> nat \<Rightarrow> int" where
  "cmp_path_by_dirblock mem lit1 lit2 path1 path1_len path2 path2_len =
     (if path1_len = 0 \<and> path2_len = 0 then 0
      else if path1 = path2 \<and> path1_len = path2_len then 0
      else if path1_len = 0 then - 1
      else if path2_len = 0 then 1
      else
        let (dirname1, dirname1_len, basename1, basename1_len) =
              split_path mem lit1 path1 path1_len;
            (dirname2, dirname2_len, basename2, basename2_len) =
              split_path mem lit2 path2 path2_len;
            cmp_val = cmp_by_dirs mem dirname1 dirname1_len dirname2 dirname2_len
        in if cmp_val \<noteq> 0 then cmp_val
           else
             let cur_len = (if basename2_len < basename1_len then basename2_len
                            else basename1_len);
                 cmp_val = memcmp mem basename1 basename2 cur_len
             in if cmp_val \<noteq> 0 then cmp_val
                else if basename1_len = basename2_len then 0
                else if basename1_len < basename2_len then - 1
                else 1)"

fun cmp_path_by_dirblock_c :: "memory \<Rightarrow> nat \<Rightarrow> nat \<Rightarrow> pyarg \<Rightarrow> pyarg \<Rightarrow> error + int" where
  "cmp_path_by_dirblock_c mem lit1 lit2 NotAString path2 = Inl TypeError"
| "cmp_path_by_dirblock_c mem lit1 lit2 (PyString p1 n1) NotAString = Inl TypeError"
| "cmp_path_by_dirblock_c mem lit1 lit2 (PyString p1 n1) (PyString p2 n2) =
     Inr (cmp_path_by_dirblock mem lit1 lit2 p1 n1 p2 n2)"

subsection \<open>Bisection\<close>

text \<open>
  The list argument is checked with \<open>PyList_CheckExact\<close>; its items are read with
  \<open>PyString_AS_STRING\<close> and \<open>PyString_GET_SIZE\<close> without a check, so the list is a list
  of plain strings, each given by address and size.
\<close>

datatype pylist = PyList "(nat \<times> nat) list" | NotAList

function bisect_left_loop ::
  "memory \<Rightarrow> nat \<Rightarrow> nat \<Rightarrow> (nat \<times> nat) list \<Rightarrow> nat \<Rightarrow> nat \<Rightarrow> nat \<Rightarrow> nat \<Rightarrow> nat" where
  "bisect_left_loop mem lit1 lit2 paths path_cstr path_size lo hi =
     (if lo < hi then
        let mid = (lo + hi) div 2;
            (cur_cstr, cur_size) = paths ! mid
        in if cmp_path_by_dirblock mem lit1 lit2 cur_cstr cur_size path_cstr path_size < 0
           then bisect_left_loop mem lit1 lit2 paths path_cstr path_size (mid + 1) hi
           else bisect_left_loop mem lit1 lit2 paths path_cstr path_size lo mid
      else lo)"
  by pat_completeness auto
termination
  by (relation "measure (\<lambda>(mem, lit1, lit2, paths, p, n, lo, hi). hi - lo)") auto

function bisect_right_loop ::
  "memory \<Rightarrow> nat \<Rightarrow> nat \<Rightarrow> (nat \<times> nat) list \<Rightarrow> nat \<Rightarrow> nat \<Rightarrow> nat \<Rightarrow> nat \<Rightarrow> nat" where
  "bisect_right_loop mem lit1 lit2 paths path_cstr path_size lo hi =
     (if lo < hi then
        let mid = (lo + hi) div 2;
            (cur_cstr, cur_size) = paths ! mid
        in if cmp_path_by_dirblock mem lit1 lit2 path_cstr path_size cur_cstr cur_size < 0
           then bisect_right_loop mem lit1 lit2 paths path_cstr path_size lo mid
           else bisect_right_loop mem lit1 lit2 paths path_cstr path_size (mid + 1) hi
      else lo)"
  by pat_completeness auto
termination
  by (relation "measure (\<lambda>(mem, lit1, lit2, paths, p, n, lo, hi). hi - lo)") auto

declare bisect_left_loop.simps [simp del] bisect_right_loop.simps [simp del]

fun bisect_path_left_c :: "memory \<Rightarrow> nat \<Rightarrow> nat \<Rightarrow> pylist \<Rightarrow> pyarg \<Rightarrow> error + nat" where
  "bisect_path_left_c mem lit1 lit2 NotAList path = Inl TypeError"
| "bisect_path_left_c mem lit1 lit2 (PyList paths) NotAString = Inl TypeError"
| "bisect_path_left_c mem lit1 lit2 (PyList paths) (PyString path_cstr path_size) =
     Inr (bisect_left_loop mem lit1 lit2 paths path_cstr path_size 0 (length paths))"

fun bisect_path_right_c :: "memory \<Rightarrow> nat \<Rightarrow> nat \<Rightarrow> pylist \<Rightarrow> pyarg \<Rightarrow> error + nat" where
  "bisect_path_right_c mem lit1 lit2 NotAList path = Inl TypeError"
| "bisect_path_right_c mem lit1 lit2 (PyList paths) NotAString = Inl TypeError"
| "bisect_path_right_c mem lit1 lit2 (PyList paths) (PyString path_cstr path_size) =
     Inr (bisect_right_loop mem lit1 lit2 paths path_cstr path_size 0 (length paths))"

text \<open>A memory whose first bytes are those of a given string, for concrete examples.\<close>

definition mem_of :: "string \<Rightarrow> memory" where
  "mem_of s a = (if a < length s then s ! a else CHR 0x00)"

text \<open>
  The byte-wise loop seen as a function of the two byte sequences; the proofs relate the
  pointer code to it.
\<close>

fun dirs_cmp :: "string \<Rightarrow> string \<Rightarrow> int" where
  "dirs_cmp [] [] = 0"
| "dirs_cmp [] (y # ys) = - 1"
| "dirs_cmp (x # xs) [] = 1"
| "dirs_cmp (x # xs) (y # ys) =
     (if x = y then dirs_cmp xs ys
      else if x = CHR ''/'' then - 1
      else if y = CHR ''/'' then 1
      else if (of_char x :: nat) < of_char y then - 1
      else 1)"

text \<open>
  The order of \<open>_cmp_path_by_dirblock\<close> on byte sequences, used in the proofs: the part
  of a path after its last \<open>/\<close>, the part before it, the comparison as a function of
  the two byte sequences, and a key in a linear order that ranks paths the same way.
\<close>

definition basename_of :: "string \<Rightarrow> string" where
  "basename_of x = rev (takeWhile (\<lambda>c. c \<noteq> CHR ''/'') (rev x))"

definition dirname_of :: "string \<Rightarrow> string" where
  "dirname_of x = rev (tl (dropWhile (\<lambda>c. c \<noteq> CHR ''/'') (rev x)))"

definition path_cmp :: "string \<Rightarrow> string \<Rightarrow> int" where
  "path_cmp x y =
     (if x = [] \<and> y = [] then 0
      else if x = [] then - 1
      else if y = [] then 1
      else if dirs_cmp (dirname_of x) (dirname_of y) \<noteq> 0
        then dirs_cmp (dirname_of x) (dirname_of y)
      else py_cmp_str (basename_of x) (basename_of y))"

definition path_key :: "string \<Rightarrow> bool \<times> nat list list \<times> nat list" where
  "path_key x =
     (x \<noteq> [], map (map of_char) (split_sep (CHR ''/'') (dirname_of x)),
      map of_char (basename_of x))"

text \<open>
  A list of paths is sorted when no element compares greater than a later one.
  \<open>insert_at\<close> is Python's \<open>list.insert\<close> for an index between 0 and the length,
  \<open>occurrences\<close> counts the elements with the bytes of the target, \<open>equal_ranked\<close>
  those that compare equal to it, and a path is relative when it does not begin
  with \<open>/\<close>.
\<close>

definition sorted_paths :: "memory \<Rightarrow> nat \<Rightarrow> nat \<Rightarrow> (nat \<times> nat) list \<Rightarrow> bool" where
  "sorted_paths mem lit1 lit2 S =
     sorted_wrt (\<lambda>(p, n) (q, m). cmp_path_by_dirblock mem lit1 lit2 p n q m \<le> 0) S"

definition insert_at :: "nat \<Rightarrow> 'a \<Rightarrow> 'a list \<Rightarrow> 'a list" where
  "insert_at i x xs = take i xs @ x # drop i xs"

definition occurrences :: "memory \<Rightarrow> (nat \<times> nat) list \<Rightarrow> nat \<Rightarrow> nat \<Rightarrow> nat" where
  "occurrences mem S tp tn = length (filter (\<lambda>(p, n). bytes_at mem p n = bytes_at mem tp tn) S)"

definition equal_ranked :: "memory \<Rightarrow> nat \<Rightarrow> nat \<Rightarrow> (nat \<times> nat) list \<Rightarrow> nat \<Rightarrow> nat \<Rightarrow> nat" where
  "equal_ranked mem lit1 lit2 S tp tn =
     length (filter (\<lambda>(p, n). cmp_path_by_dirblock mem lit1 lit2 p n tp tn = 0) S)"

definition relative_path :: "memory \<Rightarrow> nat \<times> nat \<Rightarrow> bool" where
  "relative_path mem s = (case s of (p, n) \<Rightarrow> n = 0 \<or> mem p \<noteq> CHR ''/'')"

abbreviation key_at :: "memory \<Rightarrow> nat \<times> nat \<Rightarrow> bool \<times> nat list list \<times> nat list" where
  "key_at mem s \<equiv> path_key (bytes_at mem (fst s) (snd s))"

text \<open>
  C5, amended. For every list \<open>S\<close> of plain strings sorted by \<open>_cmp_path_by_dirblock\<close>
  and every plain string \<open>t\<close>: both bisections return an index, the left one is at
  most the right one, inserting \<open>t\<close> at either index keeps the list sorted, and the
  difference of the two indices is the number of elements of \<open>S\<close> that compare equal
  to \<open>t\<close>. When neither \<open>t\<close> nor an element of \<open>S\<close> begins with \<open>/\<close>, that number is the
  number of occurrences of \<open>t\<close> in \<open>S\<close>.
\<close>

section \<open>Dirstate helpers: the record reader\<close>

text \<open>
  The reader and the B-tree leaf parser scan one Python string. The string is the list
  of its bytes and a \<open>char *\<close> into it is the offset from its first byte, so
  \<open>text_cstr\<close> is 0 and \<open>end_cstr\<close> is the length. A Python string object holds a NUL
  after its last byte, which is what a read at \<open>end_cstr\<close> returns.
\<close>

abbreviation NUL :: char where "NUL \<equiv> CHR 0x00"
abbreviation LF :: char where "LF \<equiv> CHR 0x0A"
abbreviation TAB :: char where "TAB \<equiv> CHR 0x09"
abbreviation CR :: char where "CR \<equiv> CHR 0x0D"

definition byte_at :: "string \<Rightarrow> nat \<Rightarrow> char" where
  "byte_at buf i = (if i < length buf then buf ! i else NUL)"

definition slice :: "string \<Rightarrow> nat \<Rightarrow> nat \<Rightarrow> string" where
  "slice buf s n = take n (drop s buf)"

text \<open>\<open>memchr\<close> of the C library: the first of the \<open>n\<close> bytes at \<open>s\<close> equal to \<open>c\<close>.\<close>

fun memchr :: "string \<Rightarrow> nat \<Rightarrow> char \<Rightarrow> nat \<Rightarrow> nat option" where
  "memchr buf s c 0 = None"
| "memchr buf s c (Suc n) =
     (if byte_at buf s = c then Some s else memchr buf (Suc s) c n)"

text \<open>
  \<open>strncmp\<close> of the C library compares at most \<open>n\<close> bytes and stops after a NUL. Each
  argument is the list of the bytes from the pointer to the end of the object that
  holds them; the byte after the list is the terminating NUL.
\<close>

fun strncmp :: "string \<Rightarrow> string \<Rightarrow> nat \<Rightarrow> int" where
  "strncmp s1 s2 0 = 0"
| "strncmp s1 s2 (Suc n) =
     (let c1 = (case s1 of [] \<Rightarrow> NUL | c # _ \<Rightarrow> c);
          c2 = (case s2 of [] \<Rightarrow> NUL | c # _ \<Rightarrow> c)
      in if c1 \<noteq> c2 then int (of_char c1) - int (of_char c2)
         else if c1 = NUL then 0
         else strncmp (tl s1) (tl s2) n)"

text \<open>
  \<open>strtoul\<close> of the C library in base 10: white space, an optional sign, then digits up
  to the first other byte; a value above \<open>ULONG_MAX\<close> gives \<open>ULONG_MAX\<close> and a minus sign
  negates modulo \<open>ULONG_MAX + 1\<close>. \<open>unsigned long\<close> has 64 bits here.
\<close>

definition ulong_max :: nat where
  "ulong_max = 2 ^ 64 - 1"

definition is_space :: "char \<Rightarrow> bool" where
  "is_space c = (c \<in> {CHR '' '', TAB, LF, CHR 0x0B, CHR 0x0C, CR})"

definition is_digit :: "char \<Rightarrow> bool" where
  "is_digit c = (48 \<le> (of_char c :: nat) \<and> (of_char c :: nat) \<le> 57)"

fun digits_value :: "nat \<Rightarrow> string \<Rightarrow> nat" where
  "digits_value acc [] = acc"
| "digits_value acc (c # cs) =
     (if is_digit c then digits_value (acc * 10 + (of_char c - 48)) cs else acc)"

definition strtoul :: "string \<Rightarrow> nat" where
  "strtoul s =
     (let s1 = dropWhile is_space s;
          (negative, s2) =
            (case s1 of
               [] \<Rightarrow> (False, s1)
             | c # t \<Rightarrow> if c = CHR ''-'' then (True, t)
                        else if c = CHR ''+'' then (False, t)
                        else (False, s1));
          v = digits_value 0 s2
      in if ulong_max < v then ulong_max
         else if negative then (ulong_max + 1 - v) mod (ulong_max + 1)
         else v)"

text \<open>\<open>safe_string_from_size\<close>: the new string object holds \<open>size\<close> bytes copied from \<open>s\<close>.\<close>

definition safe_string_from_size :: "string \<Rightarrow> nat \<Rightarrow> int \<Rightarrow> error + string" where
  "safe_string_from_size buf s n =
     (if n < 0 then Inl (AssertionError InvalidSize)
      else Inr (slice buf s (nat n)))"

record reader =
  rtext :: string
  end_cstr :: nat
  cur_cstr :: "nat option"

text \<open>\<open>Reader.__init__\<close>; \<open>PyString_AsString\<close> raises \<open>TypeError\<close> for another object.\<close>

definition new_reader :: "string option \<Rightarrow> error + reader" where
  "new_reader obj =
     (case obj of
        None \<Rightarrow> Inl TypeError
      | Some t \<Rightarrow> Inr \<lparr>rtext = t, end_cstr = length t, cur_cstr = Some 0\<rparr>)"

text \<open>
  \<open>get_next\<close> returns the start of the field and writes its size through the pointer
  argument; the model returns both, with the reader as it is afterwards.
\<close>

definition get_next :: "reader \<Rightarrow> error + ((nat \<times> nat) \<times> reader)" where
  "get_next r =
     (case cur_cstr r of
        None \<Rightarrow> Inl (AssertionError CurStrIsNull)
      | Some nxt \<Rightarrow>
          if end_cstr r \<le> nxt then Inl (AssertionError NoCharsLeft)
          else
            (case memchr (rtext r) nxt NUL (end_cstr r - nxt) of
               None \<Rightarrow> Inl (AssertionError NoTrailingNull)
             | Some nul \<Rightarrow> Inr ((nxt, nul - nxt), r\<lparr>cur_cstr := Some (nul + 1)\<rparr>)))"

definition get_next_str :: "reader \<Rightarrow> error + (string \<times> reader)" where
  "get_next_str r =
     (case get_next r of
        Inl e \<Rightarrow> Inl e
      | Inr ((nxt, n), r') \<Rightarrow>
          (case safe_string_from_size (rtext r) nxt (int n) of
             Inl e \<Rightarrow> Inl e
           | Inr s \<Rightarrow> Inr (s, r')))"

text \<open>\<open>Reader._init\<close>; it returns 0, and the model returns the reader.\<close>

definition init :: "reader \<Rightarrow> error + reader" where
  "init r =
     (case get_next r of
        Inl e \<Rightarrow> Inl e
      | Inr ((first, n), r') \<Rightarrow>
          if byte_at (rtext r) first \<noteq> NUL \<and> n = 0
          then Inl (AssertionError FirstNotNull)
          else Inr r')"

text \<open>Running one fallible step after another: an exception ends the computation.\<close>

definition and_then :: "'e + 'a \<Rightarrow> ('a \<Rightarrow> 'e + 'b) \<Rightarrow> 'e + 'b" where
  "and_then m f = (case m of Inl e \<Rightarrow> Inl e | Inr x \<Rightarrow> f x)"

text \<open>
  A row is a key \<open>(dirname, name, file_id)\<close> with one tuple \<open>(minikind, fingerprint, size,
  executable, info)\<close> per tree; a directory block is a directory name with its rows.
\<close>

type_synonym tree_data = "string \<times> string \<times> nat \<times> bool \<times> string"
type_synonym entry = "(string \<times> string \<times> string) \<times> tree_data list"
type_synonym dirblock = "string \<times> entry list"

text \<open>The loop over the trees in \<open>_get_entry\<close>.\<close>

fun read_trees :: "nat \<Rightarrow> reader \<Rightarrow> tree_data list \<Rightarrow> error + (tree_data list \<times> reader)" where
  "read_trees 0 r trees = Inr (trees, r)"
| "read_trees (Suc i) r trees =
     and_then (get_next_str r) (\<lambda>(minikind, r1).
     and_then (get_next_str r1) (\<lambda>(fingerprint, r2).
     and_then (get_next r2) (\<lambda>((entry_size_cstr, n1), r3).
     and_then (get_next r3) (\<lambda>((executable_cstr, n2), r4).
     and_then (get_next_str r4) (\<lambda>(info, r5).
       read_trees i r5
         (trees @ [(minikind, fingerprint,
                    strtoul (slice (rtext r) entry_size_cstr n1),
                    byte_at (rtext r) executable_cstr = CHR ''y'',
                    info)]))))))"

text \<open>
  \<open>_get_entry\<close> up to the tuple \<open>ret\<close>: the key fields and the tree columns. The result
  holds \<open>ret\<close>, the current directory name and the new-block flag as the function leaves
  them, and the reader.
\<close>

definition read_entry :: "reader \<Rightarrow> nat \<Rightarrow> string \<Rightarrow> error + (entry \<times> string \<times> bool \<times> reader)" where
  "read_entry r num_trees current_dirname =
     and_then (get_next r) (\<lambda>((dirname_cstr, cur_size), r1).
     and_then
       (if cur_size \<noteq> length current_dirname
           \<or> strncmp (drop dirname_cstr (rtext r)) current_dirname (cur_size + 1) \<noteq> 0
        then and_then (safe_string_from_size (rtext r) dirname_cstr (int cur_size))
               (\<lambda>dirname. Inr (dirname, True))
        else Inr (current_dirname, False)) (\<lambda>(dirname, new_block).
     and_then (get_next_str r1) (\<lambda>(name, r2).
     and_then (get_next_str r2) (\<lambda>(file_id, r3).
     and_then (read_trees num_trees r3 []) (\<lambda>(trees, r4).
       Inr (((dirname, name, file_id), trees), dirname, new_block, r4))))))"

text \<open>\<open>_get_entry\<close>: the row, then the trailing field, which must be a line feed.\<close>

definition get_entry :: "reader \<Rightarrow> nat \<Rightarrow> string \<Rightarrow> error + (entry \<times> string \<times> bool \<times> reader)" where
  "get_entry r num_trees current_dirname =
     and_then (read_entry r num_trees current_dirname) (\<lambda>(ret, dirname, new_block, r4).
     and_then (get_next r4) (\<lambda>((trailing, cur_size), r5).
       if cur_size \<noteq> 1 \<or> byte_at (rtext r) trailing \<noteq> LF
       then Inl (AssertionError BadParse)
       else Inr (ret, dirname, new_block, r5)))"

text \<open>
  The state of the loop in \<open>_parse_dirblocks\<close>. \<open>current_block\<close> is an alias of the row
  list of one block of \<open>state._dirblocks\<close>; the model keeps the index of that block, and
  appending to \<open>current_block\<close> appends to the rows of the block at that index.
\<close>

record parse_state =
  rd :: reader
  dirblocks :: "dirblock list"
  current_block :: nat
  current_dirname :: string
  entry_count :: nat

definition append_entry :: "parse_state \<Rightarrow> entry \<Rightarrow> parse_state" where
  "append_entry st e =
     st\<lparr>dirblocks :=
          (dirblocks st)[current_block st :=
             (fst (dirblocks st ! current_block st),
              snd (dirblocks st ! current_block st) @ [e])]\<rparr>"

definition open_block :: "parse_state \<Rightarrow> string \<Rightarrow> parse_state" where
  "open_block st dirname =
     st\<lparr>dirblocks := dirblocks st @ [(dirname, [])],
        current_block := length (dirblocks st)\<rparr>"

function parse_loop :: "nat \<Rightarrow> parse_state \<Rightarrow> error + parse_state" where
  "parse_loop num_trees st =
     (if (case cur_cstr (rd st) of None \<Rightarrow> True | Some c \<Rightarrow> c < end_cstr (rd st)) then
        (case get_entry (rd st) num_trees (current_dirname st) of
           Inl e \<Rightarrow> Inl e
         | Inr (e, dirname, new_block, r') \<Rightarrow>
             parse_loop num_trees
               ((append_entry (if new_block then open_block st dirname else st) e)
                  \<lparr>rd := r', current_dirname := dirname,
                   entry_count := entry_count st + 1\<rparr>))
      else Inr st)"
  by pat_completeness auto

text \<open>
  The state when the loop starts: \<open>current_block\<close> is the row list of block 0, a second
  block with the empty name follows, and the current directory name is \<open>''\<close>.
\<close>

definition initial_state :: "reader \<Rightarrow> parse_state" where
  "initial_state r =
     \<lparr>rd = r, dirblocks = [([], []), ([], [])], current_block = 0,
      current_dirname = [], entry_count = 0\<rparr>"

text \<open>
  \<open>num_trees\<close> and \<open>expected_entry_count\<close> are C variables of type \<open>int\<close>, which has
  32 bits: the two assignments at the start of \<open>_parse_dirblocks\<close> convert Python integers,
  and the conversion raises \<open>OverflowError\<close> for an integer outside the range of \<open>int\<close>.
  They come before \<open>_init\<close>, so such a call fails before it reads anything.
\<close>

definition in_c_int :: "int \<Rightarrow> bool" where
  "in_c_int v \<longleftrightarrow> - 2147483648 \<le> v \<and> v \<le> 2147483647"

definition c_int :: "int \<Rightarrow> error + int" where
  "c_int v = (if in_c_int v then Inr v else Inl OverflowError)"

text \<open>
  \<open>_parse_dirblocks\<close> up to its last statement: the result is \<open>state._dirblocks\<close> as it
  is when \<open>state._split_root_dirblock_into_contents()\<close> is called. That method belongs
  to \<open>DirState\<close>, outside these helpers, and is a parameter of \<open>parse_dirblocks\<close>.
  The loop \<open>for i from 0 <= i < num_trees\<close> of \<open>_get_entry\<close> runs \<open>nat num_trees\<close> times.
  \<open>entry_count\<close> is a C \<open>int\<close> as well; it counts rows of a text whose size fits an
  \<open>int\<close>, and stays in range.
\<close>

definition read_dirblocks :: "reader \<Rightarrow> int \<Rightarrow> int \<Rightarrow> error + dirblock list" where
  "read_dirblocks r num_present_parents num_entries =
     and_then (c_int (num_present_parents + 1)) (\<lambda>num_trees.
     and_then (c_int num_entries) (\<lambda>expected_entry_count.
     and_then (init r) (\<lambda>r0.
     and_then (parse_loop (nat num_trees) (initial_state r0)) (\<lambda>st.
       if int (entry_count st) \<noteq> expected_entry_count
       then Inl (AssertionError WrongEntryCount)
       else Inr (dirblocks st)))))"

definition parse_dirblocks ::
  "(dirblock list \<Rightarrow> error + dirblock list) \<Rightarrow> reader \<Rightarrow> int \<Rightarrow> int \<Rightarrow> error + dirblock list" where
  "parse_dirblocks split_root_dirblock_into_contents r num_present_parents num_entries =
     and_then (read_dirblocks r num_present_parents num_entries)
       split_root_dirblock_into_contents"

text \<open>A reader further along the same text.\<close>

definition advanced :: "reader \<Rightarrow> reader \<Rightarrow> bool" where
  "advanced r r' \<longleftrightarrow>
     rtext r' = rtext r \<and> end_cstr r' = end_cstr r \<and>
     (\<exists>c c'. cur_cstr r = Some c \<and> cur_cstr r' = Some c' \<and> c < c' \<and> c' \<le> end_cstr r)"

text \<open>The reader \<open>Reader(text)\<close> for a plain string \<open>text\<close>.\<close>

definition reader_of :: "string \<Rightarrow> reader" where
  "reader_of t = \<lparr>rtext = t, end_cstr = length t, cur_cstr = Some 0\<rparr>"

text \<open>A text made of NUL-terminated fields, for concrete examples.\<close>

definition nul_fields :: "string list \<Rightarrow> string" where
  "nul_fields fs = concat (map (\<lambda>f. f @ [NUL]) fs)"

text \<open>All rows of a list of blocks in order, and the directory name in the key of a row.\<close>

definition all_rows :: "dirblock list \<Rightarrow> entry list" where
  "all_rows bs = concat (map snd bs)"

definition row_dirname :: "entry \<Rightarrow> string" where
  "row_dirname e = fst (fst e)"

section \<open>B-tree leaf nodes: serialising\<close>

text \<open>
  \<open>_flatten_node\<close> receives Python objects and checks their types as it goes. The
  objects that matter are strings, tuples, \<open>StaticTuple\<close>s and lists; \<open>PyNone\<close> and
  \<open>PyInt\<close> stand for the objects that have no length and cannot be iterated. A
  \<open>StaticTuple\<close> is defined outside these files; it is an immutable sequence here.
\<close>

datatype pyobj =
    PyNone
  | PyInt int
  | PyStr string
  | PyTuple "pyobj list"
  | PyStaticTuple "pyobj list"
  | PyListOf "pyobj list"

fun is_tuple :: "pyobj \<Rightarrow> bool" where
  "is_tuple (PyTuple xs) = True"
| "is_tuple (PyStaticTuple xs) = True"
| "is_tuple x = False"

text \<open>Python's \<open>len\<close> and iteration; iterating a string yields its one-byte strings.\<close>

fun py_len :: "pyobj \<Rightarrow> error + nat" where
  "py_len (PyStr s) = Inr (length s)"
| "py_len (PyTuple xs) = Inr (length xs)"
| "py_len (PyStaticTuple xs) = Inr (length xs)"
| "py_len (PyListOf xs) = Inr (length xs)"
| "py_len x = Inl TypeError"

fun py_iter :: "pyobj \<Rightarrow> error + pyobj list" where
  "py_iter (PyStr s) = Inr (map (\<lambda>c. PyStr [c]) s)"
| "py_iter (PyTuple xs) = Inr xs"
| "py_iter (PyStaticTuple xs) = Inr xs"
| "py_iter (PyListOf xs) = Inr xs"
| "py_iter x = Inl TypeError"

text \<open>The items of a tuple, for \<open>node[i]\<close> and \<open>reference[i]\<close>.\<close>

fun items :: "pyobj \<Rightarrow> pyobj list" where
  "items (PyTuple xs) = xs"
| "items (PyStaticTuple xs) = xs"
| "items (PyListOf xs) = xs"
| "items x = []"

fun str_bytes :: "pyobj \<Rightarrow> error + string" where
  "str_bytes (PyStr s) = Inr s"
| "str_bytes x = Inl TypeError"

text \<open>
  Writing the items of a sequence with a separator before every item but the first,
  as the loops of \<open>_flatten_node\<close> do with their \<open>first\<close> flags and \<open>i != 0\<close> test.
\<close>

fun join_loop :: "char \<Rightarrow> bool \<Rightarrow> string list \<Rightarrow> string" where
  "join_loop sep first [] = []"
| "join_loop sep first (x # xs) = (if first then [] else [sep]) @ x @ join_loop sep False xs"

text \<open>A loop that runs a fallible step on each item in turn.\<close>

fun for_each :: "('a \<Rightarrow> error + 'b) \<Rightarrow> 'a list \<Rightarrow> error + 'b list" where
  "for_each f [] = Inr []"
| "for_each f (x # xs) =
     and_then (f x) (\<lambda>y. and_then (for_each f xs) (\<lambda>ys. Inr (y # ys)))"

text \<open>\<open>'\\0'.join(node[1])\<close>: every item must be a string.\<close>

definition py_join :: "char \<Rightarrow> pyobj \<Rightarrow> error + string" where
  "py_join sep x =
     and_then (py_iter x) (\<lambda>xs.
     and_then (for_each str_bytes xs) (\<lambda>ss. Inr (join_loop sep True ss)))"

text \<open>
  The first pass over the reference lists: the number of bytes they will take, with
  the type checks. Each function returns what its loop adds to \<open>refs_len\<close>.
\<close>

definition reference_len :: "pyobj \<Rightarrow> error + nat" where
  "reference_len reference =
     (if \<not> is_tuple reference then Inl TypeError
      else
        let next_len = length (items reference)
        in if 0 < next_len then
             and_then (for_each str_bytes (items reference)) (\<lambda>bits.
               Inr ((next_len - 1) + sum_list (map length bits)))
           else Inr 0)"

definition ref_list_len :: "pyobj \<Rightarrow> error + nat" where
  "ref_list_len ref_list =
     and_then (py_len ref_list) (\<lambda>next_len.
       if 0 < next_len then
         and_then (py_iter ref_list) (\<lambda>refs.
         and_then (for_each reference_len refs) (\<lambda>ns.
           Inr ((next_len - 1) + sum_list ns)))
       else Inr 0)"

definition ref_lists_len :: "pyobj \<Rightarrow> error + nat" where
  "ref_lists_len ref_lists =
     and_then (py_len ref_lists) (\<lambda>next_len.
       if 0 < next_len then
         and_then (py_iter ref_lists) (\<lambda>lists.
         and_then (for_each ref_list_len lists) (\<lambda>ns.
           Inr ((next_len - 1) + sum_list ns)))
       else Inr 0)"

text \<open>
  The second pass writes the reference lists. It runs only when the first pass
  succeeded, so every reference is a tuple of strings.
\<close>

fun bit_bytes :: "pyobj \<Rightarrow> string" where
  "bit_bytes (PyStr s) = s"
| "bit_bytes x = []"

fun iter_items :: "pyobj \<Rightarrow> pyobj list" where
  "iter_items (PyStr s) = map (\<lambda>c. PyStr [c]) s"
| "iter_items x = items x"

definition write_reference :: "pyobj \<Rightarrow> string" where
  "write_reference reference = join_loop NUL True (map bit_bytes (items reference))"

definition write_ref_list :: "pyobj \<Rightarrow> string" where
  "write_ref_list ref_list = join_loop CR True (map write_reference (iter_items ref_list))"

definition write_ref_lists :: "pyobj \<Rightarrow> string" where
  "write_ref_lists ref_lists = join_loop TAB True (map write_ref_list (iter_items ref_lists))"

text \<open>
  \<open>_flatten_node\<close>. The line is allocated with \<open>flat_len\<close> bytes and filled from left
  to right; the model returns the bytes written, in order. For the node of a typed
  entry the two passes agree: lemmas \<open>ref_lists_len_refs\<close> and \<open>write_ref_lists_refs\<close>.
\<close>

definition flatten_node :: "pyobj \<Rightarrow> bool \<Rightarrow> error + (string \<times> string)" where
  "flatten_node node reference_lists =
     (if \<not> is_tuple node then Inl TypeError
      else
        let node_len = length (items node);
            have_reference_lists = reference_lists
        in if have_reference_lists \<and> node_len \<noteq> 4 then Inl ValueError
           else if \<not> have_reference_lists \<and> node_len < 3 then Inl ValueError
           else
             and_then (py_join NUL (items node ! 1)) (\<lambda>string_key.
             and_then (if have_reference_lists then ref_lists_len (items node ! 3) else Inr 0)
               (\<lambda>refs_len.
             and_then (str_bytes (items node ! 2)) (\<lambda>val.
               Inr (string_key,
                    string_key @ [NUL]
                    @ (if 0 < refs_len then write_ref_lists (items node ! 3) else [])
                    @ [NUL] @ val @ [LF])))))"

definition flat_len :: "string \<Rightarrow> nat \<Rightarrow> string \<Rightarrow> nat" where
  "flat_len string_key refs_len val = length string_key + 1 + refs_len + 1 + length val + 1"

section \<open>B-tree leaf nodes: parsing\<close>

text \<open>
  A parsed entry is \<open>(key, (value, reference lists))\<close>; a key is a tuple of strings and a
  reference list a tuple of keys. Interning shares equal strings and equal tuples and
  does not change their value, so \<open>safe_interned_string_from_size\<close> and
  \<open>StaticTuple_Intern\<close> return what they are given. \<open>StaticTuple\<close> is the tuple type of
  \<open>_static_tuple_c\<close>, which is not among these sources; a \<open>StaticTuple\<close> is taken as the
  tuple of the items it is built from.
\<close>

type_synonym leaf_key = "string list"
type_synonym leaf_entry = "leaf_key \<times> string \<times> leaf_key list list"

definition safe_interned_string_from_size :: "string \<Rightarrow> nat \<Rightarrow> int \<Rightarrow> error + string" where
  "safe_interned_string_from_size buf s n =
     (if n < 0 then Inl (AssertionError InvalidSize)
      else Inr (slice buf s (nat n)))"

text \<open>
  The loop of \<open>extract_key\<close>, from \<open>loop_counter\<close> on. It returns the key with
  \<open>self._start\<close> as the loop leaves it.
\<close>

function extract_key_loop ::
  "string \<Rightarrow> nat \<Rightarrow> nat \<Rightarrow> nat \<Rightarrow> nat \<Rightarrow> string list \<Rightarrow> error + (leaf_key \<times> nat)" where
  "extract_key_loop buf key_length lastp loop_counter start key =
     (if loop_counter < key_length then
        and_then
          (case memchr buf start NUL (lastp - start) of
             None \<Rightarrow> if loop_counter + 1 = key_length then Inr lastp
                     else Inl (AssertionError InvalidKeySegment)
           | Some p \<Rightarrow> Inr p) (\<lambda>temp_ptr.
        and_then
          (if key_length = 1 \<and> temp_ptr - start = 45
              \<and> strncmp (drop start buf) ''sha1:'' 5 = 0
           then safe_string_from_size buf start (int temp_ptr - int start)
           else safe_interned_string_from_size buf start (int temp_ptr - int start))
          (\<lambda>key_element.
             extract_key_loop buf key_length lastp (loop_counter + 1) (temp_ptr + 1)
               (key @ [key_element])))
      else Inr (key, start))"
  by pat_completeness auto
termination
  by (relation "measure (\<lambda>(buf, key_length, lastp, loop_counter, start, key).
        key_length - loop_counter)") auto

declare extract_key_loop.simps [simp del]

definition extract_key :: "string \<Rightarrow> nat \<Rightarrow> nat \<Rightarrow> nat \<Rightarrow> error + (leaf_key \<times> nat)" where
  "extract_key buf key_length lastp start = extract_key_loop buf key_length lastp 0 start []"

text \<open>
  \<open>_my_memrchr\<close> of the B-tree file. Its \<open>size_t\<close> parameter receives a difference of
  pointers; when the difference is negative the converted value is so large that
  \<open>start + n - 1\<close> wraps around to an address below \<open>start\<close>, and the loop body never
  runs.
\<close>

fun memrchr_loop :: "string \<Rightarrow> nat \<Rightarrow> char \<Rightarrow> nat \<Rightarrow> nat option" where
  "memrchr_loop buf s c 0 = None"
| "memrchr_loop buf s c (Suc n) =
     (if byte_at buf (s + n) = c then Some (s + n) else memrchr_loop buf s c n)"

definition leaf_my_memrchr :: "string \<Rightarrow> nat \<Rightarrow> char \<Rightarrow> int \<Rightarrow> nat option" where
  "leaf_my_memrchr buf s c n = (if n < 0 then None else memrchr_loop buf s c (nat n))"

text \<open>
  The inner loop of \<open>process_line\<close> over the keys of one reference list. It runs while
  \<open>self._start < ref_ptr\<close>, and nothing in it bounds the number of rounds, so its result
  is optional: \<open>None\<close> when the loop does not end.
\<close>

partial_function (option) ref_list_loop ::
  "string \<Rightarrow> nat \<Rightarrow> nat \<Rightarrow> nat \<Rightarrow> leaf_key list \<Rightarrow> (error + leaf_key list) option" where
  "ref_list_loop buf key_length ref_ptr start ref_list =
     (if start < ref_ptr then
        let temp_ptr = (case memchr buf start CR (ref_ptr - start) of
                          None \<Rightarrow> ref_ptr
                        | Some p \<Rightarrow> p)
        in (case extract_key buf key_length temp_ptr start of
              Inl e \<Rightarrow> Some (Inl e)
            | Inr (key, start') \<Rightarrow>
                ref_list_loop buf key_length ref_ptr start' (ref_list @ [key]))
      else Some (Inr ref_list))"

declare ref_list_loop.simps [code]

text \<open>The loop over the reference lists, from \<open>loop_counter\<close> on.\<close>

function ref_lists_loop ::
  "string \<Rightarrow> nat \<Rightarrow> nat \<Rightarrow> nat \<Rightarrow> nat \<Rightarrow> nat \<Rightarrow> leaf_key list list
     \<Rightarrow> (error + leaf_key list list) option" where
  "ref_lists_loop buf key_length ref_list_length lastp loop_counter start ref_lists =
     (if loop_counter < ref_list_length then
        (if lastp < start then Some (Inl (AssertionError LastBeforeStart))
         else
           (case (case memchr buf start TAB (lastp - start) of
                    None \<Rightarrow>
                      if loop_counter + 1 \<noteq> ref_list_length
                      then Inl (AssertionError MissingRefList)
                      else Inr (lastp, lastp)
                  | Some temp_ptr \<Rightarrow> Inr (temp_ptr, temp_ptr + 1)) of
              Inl e \<Rightarrow> Some (Inl e)
            | Inr (ref_ptr, next_start) \<Rightarrow>
                (case ref_list_loop buf key_length ref_ptr start [] of
                   None \<Rightarrow> None
                 | Some (Inl e) \<Rightarrow> Some (Inl e)
                 | Some (Inr ref_list) \<Rightarrow>
                     ref_lists_loop buf key_length ref_list_length lastp (loop_counter + 1)
                       next_start (ref_lists @ [ref_list]))))
      else Some (Inr ref_lists))"
  by pat_completeness auto
termination
  by (relation "measure (\<lambda>(buf, key_length, ref_list_length, lastp, loop_counter, start, ref_lists).
        ref_list_length - loop_counter)") auto

declare ref_lists_loop.simps [simp del]

text \<open>
  The parser object. \<open>_cur_str\<close> and \<open>_end_str\<close> are \<open>NULL\<close> until \<open>parse\<close> sets them;
  \<open>_start\<close> is set at the beginning of every \<open>process_line\<close> and read only inside it,
  so it is a variable of \<open>process_line\<close> here.
\<close>

record leaf_parser =
  bytes :: pyobj
  key_length :: nat
  ref_list_length :: nat
  keys :: "leaf_entry list"
  cur_str :: nat
  end_str :: nat
  header_found :: bool

text \<open>
  \<open>BTreeLeafParser.__init__\<close>. The attributes \<open>key_length\<close> and \<open>ref_list_length\<close> are C
  \<open>int\<close>s, so the two assignments convert the arguments and raise \<open>OverflowError\<close> for a
  number outside the range of \<open>int\<close>. The arguments are numbers of items and of lists,
  not negative.
\<close>

definition new_leaf_parser :: "pyobj \<Rightarrow> nat \<Rightarrow> nat \<Rightarrow> error + leaf_parser" where
  "new_leaf_parser b kl rll =
     and_then (c_int (int kl)) (\<lambda>key_length.
     and_then (c_int (int rll)) (\<lambda>ref_list_length.
       Inr \<lparr>bytes = b, key_length = nat key_length, ref_list_length = nat ref_list_length,
            keys = [], cur_str = 0, end_str = 0, header_found = False\<rparr>))"

text \<open>\<open>process_line\<close>; \<open>buf\<close> is the string the two pointers point into.\<close>

definition process_line :: "string \<Rightarrow> leaf_parser \<Rightarrow> (error + leaf_parser) option" where
  "process_line buf p =
     (let start = cur_str p;
          (lastp, next_line) =
             (case memchr buf start LF (end_str p - start) of
                None \<Rightarrow> (end_str p, end_str p)
              | Some nl \<Rightarrow> (nl, nl + 1));
          p1 = p\<lparr>cur_str := next_line\<rparr>
      in if lastp = start then Some (Inr p1)
         else if lastp < start then Some (Inl (AssertionError LastBeforeStart))
         else if \<not> header_found p1 then
           (if strncmp ''type=leaf'' (drop start buf) (lastp - start) = 0
            then Some (Inr (p1\<lparr>header_found := True\<rparr>))
            else Some (Inl (AssertionError NotTypeLeaf)))
         else
           (case extract_key buf (key_length p1) lastp start of
              Inl e \<Rightarrow> Some (Inl e)
            | Inr (key, start1) \<Rightarrow>
                (case leaf_my_memrchr buf start1 NUL (int lastp - int start1) of
                   None \<Rightarrow> Some (Inl (AssertionError NoValueArea))
                 | Some temp_ptr \<Rightarrow>
                     (let str_len = int lastp - int temp_ptr - 1
                      in case (if 4 < str_len
                                  \<and> strncmp '' 0 0'' (drop (lastp - 4) buf) 4 = 0
                               then safe_interned_string_from_size buf (temp_ptr + 1) str_len
                               else safe_string_from_size buf (temp_ptr + 1) str_len) of
                           Inl e \<Rightarrow> Some (Inl e)
                         | Inr val \<Rightarrow>
                             if ref_list_length p1 \<noteq> 0 then
                               (case ref_lists_loop buf (key_length p1) (ref_list_length p1)
                                       temp_ptr 0 start1 [] of
                                  None \<Rightarrow> None
                                | Some (Inl e) \<Rightarrow> Some (Inl e)
                                | Some (Inr ref_lists) \<Rightarrow>
                                    Some (Inr (p1\<lparr>keys := keys p1 @ [(key, val, ref_lists)]\<rparr>)))
                             else if temp_ptr \<noteq> start1
                               then Some (Inl (AssertionError UnexpectedRefData))
                             else Some (Inr (p1\<lparr>keys := keys p1 @ [(key, val, [])]\<rparr>))))))"

text \<open>The loop of \<open>parse\<close>.\<close>

function leaf_loop :: "string \<Rightarrow> leaf_parser \<Rightarrow> (error + leaf_parser) option" where
  "leaf_loop buf p =
     (if cur_str p < end_str p then
        (case process_line buf p of
           None \<Rightarrow> None
         | Some (Inl e) \<Rightarrow> Some (Inl e)
         | Some (Inr p') \<Rightarrow> leaf_loop buf p')
      else Some (Inr p))"
  by pat_completeness auto

definition parse :: "leaf_parser \<Rightarrow> (error + leaf_entry list) option" where
  "parse p =
     (case bytes p of
        PyStr s \<Rightarrow>
          (case leaf_loop s (p\<lparr>cur_str := 0, end_str := length s\<rparr>) of
             None \<Rightarrow> None
           | Some (Inl e) \<Rightarrow> Some (Inl e)
           | Some (Inr p') \<Rightarrow> Some (Inr (keys p')))
      | _ \<Rightarrow> Some (Inl (AssertionError BytesNotString)))"

definition parse_leaf_lines :: "pyobj \<Rightarrow> nat \<Rightarrow> nat \<Rightarrow> (error + leaf_entry list) option" where
  "parse_leaf_lines b kl rll =
     (case new_leaf_parser b kl rll of
        Inl e \<Rightarrow> Some (Inl e)
      | Inr parser \<Rightarrow> parse parser)"

section \<open>B-tree leaf nodes: entries and their lines\<close>

text \<open>
  The text of a key, of a reference list and of the reference lists of an entry, and
  the line of an entry, as \<open>_flatten_node\<close> lays them out.
\<close>

fun join :: "char \<Rightarrow> string list \<Rightarrow> string" where
  "join sep [] = []"
| "join sep [x] = x"
| "join sep (x # y # ys) = x @ sep # join sep (y # ys)"

definition key_text :: "leaf_key \<Rightarrow> string" where
  "key_text k = join NUL k"

definition ref_list_text :: "leaf_key list \<Rightarrow> string" where
  "ref_list_text rl = join CR (map key_text rl)"

definition refs_text :: "leaf_key list list \<Rightarrow> string" where
  "refs_text refs = join TAB (map ref_list_text refs)"

definition entry_line :: "leaf_entry \<Rightarrow> string" where
  "entry_line e =
     (case e of (key, val, refs) \<Rightarrow>
        key_text key @ [NUL] @ refs_text refs @ [NUL] @ val @ [LF])"

text \<open>The node tuple of an entry: \<open>(index, key, value)\<close>, with the references when the
  index has reference lists.\<close>

definition py_key :: "leaf_key \<Rightarrow> pyobj" where
  "py_key k = PyTuple (map PyStr k)"

definition py_refs :: "leaf_key list list \<Rightarrow> pyobj" where
  "py_refs refs = PyTuple (map (\<lambda>rl. PyTuple (map py_key rl)) refs)"

definition node_of :: "pyobj \<Rightarrow> nat \<Rightarrow> leaf_entry \<Rightarrow> pyobj" where
  "node_of idx rll e =
     (case e of (key, val, refs) \<Rightarrow>
        PyTuple ([idx, py_key key, PyStr val] @ (if 0 < rll then [py_refs refs] else [])))"

text \<open>
  The entries the round trip holds for. Keys have \<open>key_length\<close> items; no item of the
  key and no value holds a NUL or a line feed; there are \<open>ref_list_length\<close> reference
  lists of keys of \<open>key_length\<close> items; no item of a reference key holds a NUL, line
  feed, tab or carriage return, and a reference key of one item is not the empty string.
\<close>

definition plain_bytes :: "string \<Rightarrow> bool" where
  "plain_bytes s \<longleftrightarrow> NUL \<notin> set s \<and> LF \<notin> set s"

definition ref_bit :: "string \<Rightarrow> bool" where
  "ref_bit s \<longleftrightarrow> NUL \<notin> set s \<and> LF \<notin> set s \<and> TAB \<notin> set s \<and> CR \<notin> set s"

definition ref_key :: "nat \<Rightarrow> leaf_key \<Rightarrow> bool" where
  "ref_key kl k \<longleftrightarrow> length k = kl \<and> list_all ref_bit k \<and> k \<noteq> [[]]"

definition wf_entry :: "nat \<Rightarrow> nat \<Rightarrow> leaf_entry \<Rightarrow> bool" where
  "wf_entry kl rll e =
     (case e of (key, val, refs) \<Rightarrow>
        length key = kl \<and> list_all plain_bytes key \<and> plain_bytes val \<and>
        length refs = rll \<and> list_all (list_all (ref_key kl)) refs)"

section \<open>Dirstate helpers: texts made of rows\<close>

text \<open>
  The definitions of this section are not functions of the source: they say what a
  text of rows is and which rows and blocks it stands for, so that the theorems about
  the reader can speak of the rows of a text in the order of the text.

  The text the reader scans is a sequence of NUL-terminated fields. A row with
  \<open>num_trees\<close> trees takes three key fields and five fields per tree, and its text is
  these fields followed by a field that holds one line feed. \<open>decode_row\<close> is the row
  such fields stand for: the key, and per tree the minikind, the fingerprint, the size
  read as a number, whether the executable field starts with \<open>y\<close>, and the info.
\<close>

definition wf_row :: "nat \<Rightarrow> string list \<Rightarrow> bool" where
  "wf_row num_trees fs \<longleftrightarrow> length fs = 3 + 5 * num_trees \<and> list_all (\<lambda>f. NUL \<notin> set f) fs"

definition row_text :: "string list \<Rightarrow> string" where
  "row_text fs = nul_fields (fs @ [[LF]])"

fun decode_trees :: "string list \<Rightarrow> tree_data list" where
  "decode_trees (minikind # fingerprint # entry_size # executable # info # rest) =
     (minikind, fingerprint, strtoul entry_size, take 1 executable = ''y'', info)
     # decode_trees rest"
| "decode_trees fs = []"

definition decode_row :: "string list \<Rightarrow> entry" where
  "decode_row fs = ((fs ! 0, fs ! 1, fs ! 2), decode_trees (drop 3 fs))"

text \<open>
  The blocks a sequence of rows is grouped into. \<open>runs\<close> cuts a sequence of rows into
  its maximal runs of consecutive rows with the same directory name, one block per run.
  \<open>blocks_of\<close> puts the rows that come before the first row with a non-empty directory
  name into block 0, leaves block 1 empty, and cuts the other rows into runs.
\<close>

function runs :: "entry list \<Rightarrow> dirblock list" where
  "runs [] = []"
| "runs (e # es) =
     (row_dirname e, e # takeWhile (\<lambda>x. row_dirname x = row_dirname e) es)
     # runs (dropWhile (\<lambda>x. row_dirname x = row_dirname e) es)"
  by pat_completeness auto
termination
  by (relation "measure length") (auto simp: length_dropWhile_le less_Suc_eq_le)

definition blocks_of :: "entry list \<Rightarrow> dirblock list" where
  "blocks_of rows =
     ([], takeWhile (\<lambda>e. row_dirname e = []) rows) # ([], [])
     # runs (dropWhile (\<lambda>e. row_dirname e = []) rows)"

text \<open>
  \<open>fields_read r r' fs\<close>: the reader \<open>r'\<close> is \<open>r\<close> moved over the NUL-terminated fields
  \<open>fs\<close>, which the text holds at the cursor of \<open>r\<close>.
\<close>

definition fields_read :: "reader \<Rightarrow> reader \<Rightarrow> string list \<Rightarrow> bool" where
  "fields_read r r' fs \<longleftrightarrow>
     rtext r' = rtext r \<and> end_cstr r' = end_cstr r \<and> list_all (\<lambda>f. NUL \<notin> set f) fs \<and>
     cur_cstr r \<noteq> None \<and>
     cur_cstr r' = Some (the (cur_cstr r) + length (nul_fields fs)) \<and>
     slice (rtext r) (the (cur_cstr r)) (length (nul_fields fs)) = nul_fields fs"

section \<open>Properties of the path ordering\<close>

lemma bytes_at_step: "c < e \<Longrightarrow> bytes_at mem c (e - c) = mem c # bytes_at mem (Suc c) (e - Suc c)"
  by (simp add: bytes_at_def upt_conv_Cons)

lemma bytes_at_zero [simp]: "bytes_at mem c 0 = []"
  by (simp add: bytes_at_def)

lemma bytes_at_done: "\<not> c < e \<Longrightarrow> bytes_at mem c (e - c) = []"
  by (simp add: bytes_at_def)

lemma byte_loop_dirs_cmp:
  "byte_loop mem c1 e1 c2 e2 = dirs_cmp (bytes_at mem c1 (e1 - c1)) (bytes_at mem c2 (e2 - c2))"
proof (induction mem c1 e1 c2 e2 rule: byte_loop.induct)
  case (1 mem cur1 end1 cur2 end2)
  show ?case
  proof (cases "cur1 < end1 \<and> cur2 < end2")
    case True
    then show ?thesis
      using 1 by (subst byte_loop.simps) (simp add: bytes_at_step)
  next
    case False
    then show ?thesis
      by (subst byte_loop.simps) (auto simp: bytes_at_step bytes_at_done)
  qed
qed

lemma byte_loop_skip:
  "\<forall>i. i < k \<longrightarrow> mem (c1 + i) = mem (c2 + i) \<Longrightarrow> c1 + k \<le> e1 \<Longrightarrow> c2 + k \<le> e2 \<Longrightarrow>
   byte_loop mem c1 e1 c2 e2 = byte_loop mem (c1 + k) e1 (c2 + k) e2"
proof (induction k arbitrary: c1 c2)
  case 0
  then show ?case by simp
next
  case (Suc k)
  have h0: "mem c1 = mem c2" using Suc.prems(1)[rule_format, of 0] by simp
  have "\<forall>i. i < k \<longrightarrow> mem (Suc c1 + i) = mem (Suc c2 + i)"
  proof (intro allI impI)
    fix i assume "i < k"
    then show "mem (Suc c1 + i) = mem (Suc c2 + i)"
      using Suc.prems(1)[rule_format, of "Suc i"] by simp
  qed
  then have "byte_loop mem (Suc c1) e1 (Suc c2) e2 = byte_loop mem (Suc c1 + k) e1 (Suc c2 + k) e2"
    using Suc.IH Suc.prems by simp
  moreover have "byte_loop mem c1 e1 c2 e2 = byte_loop mem (Suc c1) e1 (Suc c2) e2"
    using h0 Suc.prems by (subst byte_loop.simps) simp
  ultimately show ?case by simp
qed

lemma load_int_eq:
  assumes "load_int mem a = load_int mem b"
  shows "\<forall>i. i < sizeof_int \<longrightarrow> mem (a + i) = mem (b + i)"
proof (intro allI impI)
  fix i assume "i < sizeof_int"
  then have "load_int mem a ! i = mem (a + i)" "load_int mem b ! i = mem (b + i)"
    by (simp_all add: load_int_def)
  with assms show "mem (a + i) = mem (b + i)" by simp
qed

lemma int_loop_byte_loop:
  "int_loop mem c1 ei1 c2 ei2 = (c1', c2') \<Longrightarrow> ei1 \<le> e1 \<Longrightarrow> ei2 \<le> e2 \<Longrightarrow>
   sizeof_int dvd (ei1 - c1) \<Longrightarrow> sizeof_int dvd (ei2 - c2) \<Longrightarrow>
   byte_loop mem c1' e1 c2' e2 = byte_loop mem c1 e1 c2 e2"
proof (induction mem c1 ei1 c2 ei2 rule: int_loop.induct)
  case (1 mem c1 ei1 c2 ei2)
  show ?case
  proof (cases "c1 < ei1 \<and> c2 < ei2 \<and> load_int mem c1 = load_int mem c2")
    case True
    have lt: "c1 < ei1" "c2 < ei2" using True by simp_all
    have a1: "c1 + sizeof_int \<le> ei1" using lt(1) "1.prems"(4)
      unfolding sizeof_int_def by presburger
    have a2: "c2 + sizeof_int \<le> ei2" using lt(2) "1.prems"(5)
      unfolding sizeof_int_def by presburger
    have d1: "sizeof_int dvd (ei1 - (c1 + sizeof_int))" using "1.prems"(4) a1
      unfolding sizeof_int_def by presburger
    have d2: "sizeof_int dvd (ei2 - (c2 + sizeof_int))" using "1.prems"(5) a2
      unfolding sizeof_int_def by presburger
    have r: "int_loop mem (c1 + sizeof_int) ei1 (c2 + sizeof_int) ei2 = (c1', c2')"
      using True "1.prems"(1) by (subst (asm) int_loop.simps) simp
    have "byte_loop mem c1' e1 c2' e2 = byte_loop mem (c1 + sizeof_int) e1 (c2 + sizeof_int) e2"
      using "1.IH" True r "1.prems"(2,3) d1 d2 by simp
    also have "\<dots> = byte_loop mem c1 e1 c2 e2"
      using byte_loop_skip[of sizeof_int mem c1 c2 e1 e2] load_int_eq[of mem c1 c2] True a1 a2 "1.prems"(2,3)
      by simp
    finally show ?thesis .
  next
    case False
    then have "(c1', c2') = (c1, c2)"
      using "1.prems"(1) by (subst (asm) int_loop.simps) (auto split: if_splits)
    then show ?thesis by simp
  qed
qed

lemma dirs_cmp_refl: "dirs_cmp xs xs = 0"
  by (induction xs) simp_all

lemma cmp_by_dirs_dirs_cmp:
  "cmp_by_dirs mem p1 n1 p2 n2 = dirs_cmp (bytes_at mem p1 n1) (bytes_at mem p2 n2)"
proof (cases "p1 = p2 \<and> n1 = n2")
  case True
  then show ?thesis by (simp add: cmp_by_dirs_def dirs_cmp_refl)
next
  case False
  show ?thesis
  proof (cases "is_aligned p1 \<and> is_aligned p2")
    case True
    obtain c1 c2 where r: "int_loop mem p1 (p1 + n1 - n1 mod sizeof_int)
        p2 (p2 + n2 - n2 mod sizeof_int) = (c1, c2)"
      by (cases "int_loop mem p1 (p1 + n1 - n1 mod sizeof_int) p2 (p2 + n2 - n2 mod sizeof_int)")
    have d1: "sizeof_int dvd (p1 + n1 - n1 mod sizeof_int - p1)"
      by (simp add: dvd_minus_mod)
    have d2: "sizeof_int dvd (p2 + n2 - n2 mod sizeof_int - p2)"
      by (simp add: dvd_minus_mod)
    have "byte_loop mem c1 (p1 + n1) c2 (p2 + n2) = byte_loop mem p1 (p1 + n1) p2 (p2 + n2)"
      using int_loop_byte_loop[OF r _ _ d1 d2, of "p1 + n1" "p2 + n2"] by simp
    then show ?thesis
      using False True r by (simp add: cmp_by_dirs_def byte_loop_dirs_cmp dirs_cmp_refl)
  next
    case unaligned: False
    then show ?thesis
      using False by (auto simp: cmp_by_dirs_def byte_loop_dirs_cmp dirs_cmp_refl)
  qed
qed

lemma dirs_cmp_antisym: "dirs_cmp xs ys = - dirs_cmp ys xs"
  by (induction xs ys rule: dirs_cmp.induct) (auto simp: of_char_eq_iff)

lemma split_sep_not_Nil [simp]: "split_sep sep xs \<noteq> []"
  by (induction xs) (auto split: list.splits)

lemma dirs_cmp_split:
  "dirs_cmp xs ys = py_cmp_components (split_sep (CHR ''/'') xs) (split_sep (CHR ''/'') ys)"
proof (induction xs ys rule: dirs_cmp.induct)
  case 1
  then show ?case by simp
next
  case (2 y ys)
  then show ?case by (cases "split_sep (CHR ''/'') ys") auto
next
  case (3 x xs)
  then show ?case by (cases "split_sep (CHR ''/'') xs") auto
next
  case (4 x xs y ys)
  obtain a as where a: "split_sep (CHR ''/'') xs = a # as"
    by (cases "split_sep (CHR ''/'') xs") auto
  obtain b bs where b: "split_sep (CHR ''/'') ys = b # bs"
    by (cases "split_sep (CHR ''/'') ys") auto
  show ?case
  proof (cases "x = y")
    case True
    then show ?thesis using 4 a b by auto
  next
    case False
    then have "(of_char x :: nat) \<noteq> of_char y" by simp
    then show ?thesis using False a b by auto
  qed
qed


lemma sgn_dirs_cmp: "sgn (dirs_cmp xs ys) = dirs_cmp xs ys"
  by (induction xs ys rule: dirs_cmp.induct) auto

lemma bytes_at_mem_of: "p + n \<le> length s \<Longrightarrow> bytes_at (mem_of s) p n = take n (drop p s)"
  by (auto simp: bytes_at_def mem_of_def list_eq_iff_nth_eq)

text \<open>
  C1. For all plain strings \<open>path1\<close> and \<open>path2\<close> (with or without NUL bytes),
  \<open>cmp_by_dirs_c\<close> returns an integer whose sign is the result of Python's \<open>cmp\<close> on
  the two lists of components obtained by splitting at \<open>/\<close>, and calling it with the
  arguments swapped returns the negated integer.
\<close>

theorem cmp_by_dirs_c_components:
  "\<exists>r. cmp_by_dirs_c mem (PyString p1 n1) (PyString p2 n2) = Inr r \<and>
       sgn r = py_cmp_components (split_sep (CHR ''/'') (str_of mem (PyString p1 n1)))
                                 (split_sep (CHR ''/'') (str_of mem (PyString p2 n2))) \<and>
       cmp_by_dirs_c mem (PyString p2 n2) (PyString p1 n1) = Inr (- r)"
proof -
  let ?r = "cmp_by_dirs mem p1 n1 p2 n2"
  have "sgn ?r = ?r"
    by (simp only: cmp_by_dirs_dirs_cmp sgn_dirs_cmp)
  moreover have "?r = py_cmp_components (split_sep (CHR ''/'') (bytes_at mem p1 n1))
                                   (split_sep (CHR ''/'') (bytes_at mem p2 n2))"
    by (simp only: cmp_by_dirs_dirs_cmp dirs_cmp_split)
  moreover have "cmp_by_dirs mem p2 n2 p1 n1 = - ?r"
    using dirs_cmp_antisym[of "bytes_at mem p2 n2" "bytes_at mem p1 n1"]
    by (simp add: cmp_by_dirs_dirs_cmp)
  ultimately show ?thesis by simp
qed

text \<open>
  C2, as stated, fails: with \<open>a\<close> at address 0, \<open>a-b\<close> at address 4 and \<open>a/b\<close> at
  address 8, \<open>cmp_by_dirs_c("a-b", "a/b")\<close> is \<open>1\<close>, not a negative number. At the
  second byte \<open>-\<close> meets \<open>/\<close>, and the side holding the separator sorts first.
\<close>

theorem cmp_by_dirs_calibration_counterexample:
  "cmp_by_dirs_c
     (mem_of (''a'' @ [CHR 0x00, CHR 0x00, CHR 0x00] @ ''a-b'' @ [CHR 0x00] @ ''a/b''))
     (PyString 4 3) (PyString 8 3) = Inr 1"
  by (simp add: cmp_by_dirs_dirs_cmp bytes_at_mem_of)

text \<open>
  C2, amended. Wherever the three strings lie in memory, \<open>cmp_by_dirs_c\<close> puts \<open>a\<close>
  before \<open>a-b\<close> and before \<open>a/b\<close>, and puts \<open>a-b\<close> after \<open>a/b\<close>: the order is
  \<open>a < a/b < a-b\<close>.
\<close>

theorem cmp_by_dirs_calibration:
  assumes "bytes_at mem pa 1 = ''a''" and "bytes_at mem pb 3 = ''a-b''"
    and "bytes_at mem pc 3 = ''a/b''"
  shows "cmp_by_dirs_c mem (PyString pa 1) (PyString pb 3) = Inr (- 1) \<and>
         cmp_by_dirs_c mem (PyString pa 1) (PyString pc 3) = Inr (- 1) \<and>
         cmp_by_dirs_c mem (PyString pb 3) (PyString pc 3) = Inr 1"
  using assms by (simp add: cmp_by_dirs_dirs_cmp)

theorem cmp_by_dirs_calibration_witness:
  "cmp_by_dirs_c
     (mem_of (''a'' @ [CHR 0x00, CHR 0x00, CHR 0x00] @ ''a-b'' @ [CHR 0x00] @ ''a/b''))
     (PyString 0 1) (PyString 4 3) = Inr (- 1) \<and>
   cmp_by_dirs_c
     (mem_of (''a'' @ [CHR 0x00, CHR 0x00, CHR 0x00] @ ''a-b'' @ [CHR 0x00] @ ''a/b''))
     (PyString 0 1) (PyString 8 3) = Inr (- 1) \<and>
   cmp_by_dirs_c
     (mem_of (''a'' @ [CHR 0x00, CHR 0x00, CHR 0x00] @ ''a-b'' @ [CHR 0x00] @ ''a/b''))
     (PyString 4 3) (PyString 8 3) = Inr 1"
  using cmp_by_dirs_calibration
    [of "mem_of (''a'' @ [CHR 0x00, CHR 0x00, CHR 0x00] @ ''a-b'' @ [CHR 0x00] @ ''a/b'')" 0 4 8]
  by (simp add: bytes_at_mem_of)

lemma bytes_at_Cons: "bytes_at mem p (Suc n) = mem p # bytes_at mem (Suc p) n"
  unfolding bytes_at_def by (simp add: upt_conv_Cons del: upt_Suc)

lemma bytes_at_snoc: "bytes_at mem p (Suc n) = bytes_at mem p n @ [mem (p + n)]"
  by (simp add: bytes_at_def)

lemma bytes_at_Nil_iff [simp]: "bytes_at mem p n = [] \<longleftrightarrow> n = 0"
  by (auto simp: bytes_at_def)

lemma length_bytes_at [simp]: "length (bytes_at mem p n) = n"
  by (simp add: bytes_at_def)

lemma my_memrchr_None:
  "my_memrchr mem s c n = None \<Longrightarrow> c \<notin> set (bytes_at mem s n)"
  by (induction n) (auto simp: bytes_at_snoc split: if_splits)

lemma my_memrchr_Some:
  "my_memrchr mem s c n = Some b \<Longrightarrow>
     s \<le> b \<and> b < s + n \<and>
     bytes_at mem (b + 1) (s + n - (b + 1)) = rev (takeWhile (\<lambda>x. x \<noteq> c) (rev (bytes_at mem s n))) \<and>
     bytes_at mem s (b - s) = rev (tl (dropWhile (\<lambda>x. x \<noteq> c) (rev (bytes_at mem s n))))"
proof (induction n)
  case 0
  then show ?case by simp
next
  case (Suc n)
  show ?case
  proof (cases "mem (s + n) = c")
    case True
    then have "b = s + n" using Suc.prems by simp
    then show ?thesis using True by (simp add: bytes_at_snoc)
  next
    case False
    then have r: "my_memrchr mem s c n = Some b" using Suc.prems by simp
    note ih = Suc.IH[OF r]
    from ih have bnd: "s \<le> b" "b < s + n" by simp_all
    have e1: "s + Suc n - (b + 1) = Suc (s + n - (b + 1))" using bnd by arith
    have e2: "b + 1 + (s + n - (b + 1)) = s + n" using bnd by arith
    have "bytes_at mem (b + 1) (s + Suc n - (b + 1)) =
          bytes_at mem (b + 1) (s + n - (b + 1)) @ [mem (s + n)]"
      unfolding e1 bytes_at_snoc e2 ..
    then show ?thesis using ih False bnd
      by (simp add: bytes_at_snoc)
  qed
qed

lemma split_path_bytes:
  assumes "split_path mem lit p n = (d, dn, b, bn)"
  shows "bytes_at mem d dn = dirname_of (bytes_at mem p n) \<and>
         bytes_at mem b bn = basename_of (bytes_at mem p n)"
proof (cases "my_memrchr mem p (CHR ''/'') n")
  case None
  then have "CHR ''/'' \<notin> set (bytes_at mem p n)" by (rule my_memrchr_None)
  then have tw: "takeWhile (\<lambda>c. c \<noteq> CHR ''/'') (rev (bytes_at mem p n)) = rev (bytes_at mem p n)"
    and dw: "dropWhile (\<lambda>c. c \<noteq> CHR ''/'') (rev (bytes_at mem p n)) = []"
    by auto
  from assms None have "dn = 0" "b = p" "bn = n"
    by (simp_all add: split_path_def)
  then show ?thesis
    by (simp add: dirname_of_def basename_of_def tw dw)
next
  case (Some slash)
  note h = my_memrchr_Some[OF Some]
  from h have "p \<le> slash" "slash < p + n" by simp_all
  then have "n - (slash - p) - 1 = p + n - (slash + 1)" by arith
  then show ?thesis
    using assms Some h by (auto simp: split_path_def dirname_of_def basename_of_def)
qed

lemma base_cmp_sign:
  "sgn (let c = memcmp mem b1 b2 (if n2 < n1 then n2 else n1)
        in if c \<noteq> 0 then c
           else if n1 = n2 then 0 else if n1 < n2 then - 1 else 1) =
   py_cmp_str (bytes_at mem b1 n1) (bytes_at mem b2 n2)"
proof (induction n1 arbitrary: b1 b2 n2)
  case 0
  then show ?case by (cases n2) (simp_all add: bytes_at_Cons)
next
  case (Suc m)
  show ?case
  proof (cases n2)
    case 0
    then show ?thesis by (simp add: bytes_at_Cons)
  next
    case (Suc k)
    have mn: "(if Suc k < Suc m then Suc k else Suc m) = Suc (if k < m then k else m)"
      by simp
    show ?thesis
    proof (cases "mem b1 = mem b2")
      case True
      then show ?thesis
        using Suc.IH[of "Suc b1" "Suc b2" k] Suc
        by (auto simp: bytes_at_Cons Let_def split: if_splits)
    next
      case False
      then have "(of_char (mem b1) :: nat) \<noteq> of_char (mem b2)" by simp
      then show ?thesis
        using False Suc by (auto simp: bytes_at_Cons Let_def)
    qed
  qed
qed

lemma py_cmp_str_range: "py_cmp_str a b = - 1 \<or> py_cmp_str a b = 0 \<or> py_cmp_str a b = 1"
  by (induction a b rule: py_cmp_str.induct) auto

lemma py_cmp_str_less: "py_cmp_str a b < 0 \<longleftrightarrow> (map of_char a :: nat list) < map of_char b"
  by (induction a b rule: py_cmp_str.induct) auto

lemma map_of_char_eq: "(map of_char a :: nat list) = map of_char b \<longleftrightarrow> a = b"
  by (rule inj_map_eq_map) (simp add: inj_def)

lemma py_cmp_str_eq: "py_cmp_str a b = 0 \<longleftrightarrow> a = b"
  by (induction a b rule: py_cmp_str.induct) auto

lemma dirs_cmp_range: "dirs_cmp a b = - 1 \<or> dirs_cmp a b = 0 \<or> dirs_cmp a b = 1"
  by (induction a b rule: dirs_cmp.induct) auto

lemma py_cmp_components_less:
  "py_cmp_components A B < 0 \<longleftrightarrow>
   (map (map of_char) A :: nat list list) < map (map of_char) B"
  by (induction A B rule: py_cmp_components.induct)
     (auto simp: py_cmp_str_less py_cmp_str_eq map_of_char_eq)

lemma py_cmp_components_eq: "py_cmp_components A B = 0 \<longleftrightarrow> A = B"
  by (induction A B rule: py_cmp_components.induct) (auto simp: py_cmp_str_eq)

lemma py_cmp_str_refl: "py_cmp_str a a = 0"
  by (simp add: py_cmp_str_eq)

lemma path_cmp_refl: "path_cmp x x = 0"
  by (simp add: path_cmp_def dirs_cmp_refl py_cmp_str_refl)

lemma cmp_path_sign:
  "sgn (cmp_path_by_dirblock mem lit1 lit2 p1 n1 p2 n2) =
   path_cmp (bytes_at mem p1 n1) (bytes_at mem p2 n2)"
proof -
  obtain d1 dn1 b1 bn1 where s1: "split_path mem lit1 p1 n1 = (d1, dn1, b1, bn1)"
    by (cases "split_path mem lit1 p1 n1") auto
  obtain d2 dn2 b2 bn2 where s2: "split_path mem lit2 p2 n2 = (d2, dn2, b2, bn2)"
    by (cases "split_path mem lit2 p2 n2") auto
  note v1 = split_path_bytes[OF s1] and v2 = split_path_bytes[OF s2]
  let ?x = "bytes_at mem p1 n1" and ?y = "bytes_at mem p2 n2"
  have dirs: "cmp_by_dirs mem d1 dn1 d2 dn2 = dirs_cmp (dirname_of ?x) (dirname_of ?y)"
    using v1 v2 by (simp add: cmp_by_dirs_dirs_cmp)
  have base: "sgn (if memcmp mem b1 b2 (if bn2 < bn1 then bn2 else bn1) \<noteq> 0
                   then memcmp mem b1 b2 (if bn2 < bn1 then bn2 else bn1)
                   else if bn1 = bn2 then 0 else if bn1 < bn2 then - 1 else 1) =
              py_cmp_str (basename_of ?x) (basename_of ?y)"
    using base_cmp_sign[of mem b1 b2 bn2 bn1] v1 v2 by (simp add: Let_def)
  show ?thesis
  proof (cases "n1 = 0 \<or> n2 = 0 \<or> (p1 = p2 \<and> n1 = n2)")
    case True
    then show ?thesis
      by (auto simp: cmp_path_by_dirblock_def path_cmp_def dirs_cmp_refl py_cmp_str_refl)
  next
    case False
    show ?thesis
    proof (cases "dirs_cmp (dirname_of ?x) (dirname_of ?y) = 0")
      case True
      then show ?thesis
        using False s1 s2 dirs base
        by (simp add: cmp_path_by_dirblock_def path_cmp_def Let_def py_cmp_str_refl)
    next
      case nz: False
      then show ?thesis
        using False s1 s2 dirs
        by (simp add: cmp_path_by_dirblock_def path_cmp_def Let_def sgn_dirs_cmp dirs_cmp_refl)
    qed
  qed
qed

lemma map_map_of_char_eq:
  "(map (map of_char) A :: nat list list) = map (map of_char) B \<longleftrightarrow> A = B"
  by (rule inj_map_eq_map) (simp add: inj_def map_of_char_eq)

lemma path_cmp_less: "path_cmp x y < 0 \<longleftrightarrow> path_key x < path_key y"
proof -
  let ?c = "dirs_cmp (dirname_of x) (dirname_of y)"
  have A: "?c < 0 \<longleftrightarrow>
      (map (map of_char) (split_sep (CHR ''/'') (dirname_of x)) :: nat list list)
        < map (map of_char) (split_sep (CHR ''/'') (dirname_of y))"
    by (simp add: dirs_cmp_split py_cmp_components_less)
  have B: "?c = 0 \<longleftrightarrow>
      (map (map of_char) (split_sep (CHR ''/'') (dirname_of x)) :: nat list list)
        = map (map of_char) (split_sep (CHR ''/'') (dirname_of y))"
    by (simp add: dirs_cmp_split py_cmp_components_eq map_map_of_char_eq)
  show ?thesis
    by (auto simp: path_cmp_def path_key_def A B py_cmp_str_less)
qed

lemma path_cmp_eq: "path_cmp x y = 0 \<longleftrightarrow> path_key x = path_key y"
proof -
  let ?c = "dirs_cmp (dirname_of x) (dirname_of y)"
  have B: "?c = 0 \<longleftrightarrow>
      (map (map of_char) (split_sep (CHR ''/'') (dirname_of x)) :: nat list list)
        = map (map of_char) (split_sep (CHR ''/'') (dirname_of y))"
    by (simp add: dirs_cmp_split py_cmp_components_eq map_map_of_char_eq)
  show ?thesis
    by (auto simp: path_cmp_def path_key_def B py_cmp_str_eq map_of_char_eq)
qed

lemma cmp_path_less:
  "cmp_path_by_dirblock mem lit1 lit2 p1 n1 p2 n2 < 0 \<longleftrightarrow>
   path_key (bytes_at mem p1 n1) < path_key (bytes_at mem p2 n2)"
  using cmp_path_sign[of mem lit1 lit2 p1 n1 p2 n2] path_cmp_less[of "bytes_at mem p1 n1" "bytes_at mem p2 n2"]
  by (simp add: sgn_if split: if_splits)

lemma cmp_path_eq:
  "cmp_path_by_dirblock mem lit1 lit2 p1 n1 p2 n2 = 0 \<longleftrightarrow>
   path_key (bytes_at mem p1 n1) = path_key (bytes_at mem p2 n2)"
  using cmp_path_sign[of mem lit1 lit2 p1 n1 p2 n2] path_cmp_eq[of "bytes_at mem p1 n1" "bytes_at mem p2 n2"]
  by (simp add: sgn_if split: if_splits)

lemma cmp_path_le:
  "cmp_path_by_dirblock mem lit1 lit2 p1 n1 p2 n2 \<le> 0 \<longleftrightarrow>
   path_key (bytes_at mem p1 n1) \<le> path_key (bytes_at mem p2 n2)"
  using cmp_path_less[of mem lit1 lit2 p1 n1 p2 n2] cmp_path_eq[of mem lit1 lit2 p1 n1 p2 n2]
  by (auto simp: order.order_iff_strict)

lemma bisect_left_loop_spec:
  assumes "sorted (map (key_at mem) S)" and "lo \<le> hi" and "hi \<le> length S"
    and "\<forall>i. i < lo \<longrightarrow> key_at mem (S ! i) < k" and "\<forall>i. hi \<le> i \<and> i < length S \<longrightarrow> \<not> key_at mem (S ! i) < k"
    and "k = path_key (bytes_at mem tp tn)"
  shows "bisect_left_loop mem lit1 lit2 S tp tn lo hi \<le> length S \<and>
         (\<forall>i. i < bisect_left_loop mem lit1 lit2 S tp tn lo hi \<longrightarrow> key_at mem (S ! i) < k) \<and>
         (\<forall>i. bisect_left_loop mem lit1 lit2 S tp tn lo hi \<le> i \<and> i < length S \<longrightarrow> \<not> key_at mem (S ! i) < k)"
  using assms
proof (induction mem lit1 lit2 S tp tn lo hi rule: bisect_left_loop.induct)
  case (1 mem lit1 lit2 paths path_cstr path_size lo hi)
  show ?case
  proof (cases "lo < hi")
    case False
    then have "lo = hi" using "1.prems" by simp
    moreover have "bisect_left_loop mem lit1 lit2 paths path_cstr path_size lo hi = lo"
      using False by (subst bisect_left_loop.simps) simp
    ultimately show ?thesis using "1.prems" by simp
  next
    case True
    define mid where "mid = (lo + hi) div 2"
    obtain cp cn where cur: "paths ! mid = (cp, cn)" by (cases "paths ! mid")
    have m: "lo \<le> mid" "mid < hi" using True by (simp_all add: mid_def)
    have srt: "\<And>i j. i \<le> j \<Longrightarrow> j < length paths \<Longrightarrow> key_at mem (paths ! i) \<le> key_at mem (paths ! j)"
      using "1.prems"(1) by (simp add: sorted_iff_nth_mono)
    show ?thesis
    proof (cases "cmp_path_by_dirblock mem lit1 lit2 cp cn path_cstr path_size < 0")
      case lt: True
      then have kl: "key_at mem (paths ! mid) < k"
        using cur "1.prems"(6) by (simp add: cmp_path_less)
      have below: "\<forall>i. i < mid + 1 \<longrightarrow> key_at mem (paths ! i) < k"
      proof (intro allI impI)
        fix i assume "i < mid + 1"
        then have "key_at mem (paths ! i) \<le> key_at mem (paths ! mid)"
          using srt[of i mid] m "1.prems"(3) by simp
        then show "key_at mem (paths ! i) < k" using kl by simp
      qed
      have "bisect_left_loop mem lit1 lit2 paths path_cstr path_size lo hi =
            bisect_left_loop mem lit1 lit2 paths path_cstr path_size (mid + 1) hi"
        using True lt cur by (subst bisect_left_loop.simps) (simp add: mid_def Let_def)
      moreover have "bisect_left_loop mem lit1 lit2 paths path_cstr path_size (mid + 1) hi \<le> length paths \<and>
         (\<forall>i. i < bisect_left_loop mem lit1 lit2 paths path_cstr path_size (mid + 1) hi \<longrightarrow> key_at mem (paths ! i) < k) \<and>
         (\<forall>i. bisect_left_loop mem lit1 lit2 paths path_cstr path_size (mid + 1) hi \<le> i \<and> i < length paths \<longrightarrow> \<not> key_at mem (paths ! i) < k)"
        by (rule "1.IH"(1)[OF True mid_def refl cur[symmetric] lt "1.prems"(1) _ "1.prems"(3) below "1.prems"(5,6)])
           (use m in simp)
      ultimately show ?thesis by simp
    next
      case ge: False
      then have kl: "\<not> key_at mem (paths ! mid) < k"
        using cur "1.prems"(6) by (simp add: cmp_path_less)
      have above: "\<forall>i. mid \<le> i \<and> i < length paths \<longrightarrow> \<not> key_at mem (paths ! i) < k"
      proof (intro allI impI)
        fix i assume "mid \<le> i \<and> i < length paths"
        then have "key_at mem (paths ! mid) \<le> key_at mem (paths ! i)"
          using srt[of mid i] by simp
        then show "\<not> key_at mem (paths ! i) < k" using kl by auto
      qed
      have "bisect_left_loop mem lit1 lit2 paths path_cstr path_size lo hi =
            bisect_left_loop mem lit1 lit2 paths path_cstr path_size lo mid"
        using True ge cur by (subst bisect_left_loop.simps) (simp add: mid_def Let_def)
      moreover have "bisect_left_loop mem lit1 lit2 paths path_cstr path_size lo mid \<le> length paths \<and>
         (\<forall>i. i < bisect_left_loop mem lit1 lit2 paths path_cstr path_size lo mid \<longrightarrow> key_at mem (paths ! i) < k) \<and>
         (\<forall>i. bisect_left_loop mem lit1 lit2 paths path_cstr path_size lo mid \<le> i \<and> i < length paths \<longrightarrow> \<not> key_at mem (paths ! i) < k)"
        by (rule "1.IH"(2)[OF True mid_def refl cur[symmetric] ge "1.prems"(1) _ _ "1.prems"(4) above "1.prems"(6)])
           (use m "1.prems"(3) in simp_all)
      ultimately show ?thesis by simp
    qed
  qed
qed

lemma bisect_right_loop_spec:
  assumes "sorted (map (key_at mem) S)" and "lo \<le> hi" and "hi \<le> length S"
    and "\<forall>i. i < lo \<longrightarrow> key_at mem (S ! i) \<le> k" and "\<forall>i. hi \<le> i \<and> i < length S \<longrightarrow> \<not> key_at mem (S ! i) \<le> k"
    and "k = path_key (bytes_at mem tp tn)"
  shows "bisect_right_loop mem lit1 lit2 S tp tn lo hi \<le> length S \<and>
         (\<forall>i. i < bisect_right_loop mem lit1 lit2 S tp tn lo hi \<longrightarrow> key_at mem (S ! i) \<le> k) \<and>
         (\<forall>i. bisect_right_loop mem lit1 lit2 S tp tn lo hi \<le> i \<and> i < length S \<longrightarrow> \<not> key_at mem (S ! i) \<le> k)"
  using assms
proof (induction mem lit1 lit2 S tp tn lo hi rule: bisect_right_loop.induct)
  case (1 mem lit1 lit2 paths path_cstr path_size lo hi)
  show ?case
  proof (cases "lo < hi")
    case False
    then have "lo = hi" using "1.prems" by simp
    moreover have "bisect_right_loop mem lit1 lit2 paths path_cstr path_size lo hi = lo"
      using False by (subst bisect_right_loop.simps) simp
    ultimately show ?thesis using "1.prems" by simp
  next
    case True
    define mid where "mid = (lo + hi) div 2"
    obtain cp cn where cur: "paths ! mid = (cp, cn)" by (cases "paths ! mid")
    have m: "lo \<le> mid" "mid < hi" using True by (simp_all add: mid_def)
    have srt: "\<And>i j. i \<le> j \<Longrightarrow> j < length paths \<Longrightarrow> key_at mem (paths ! i) \<le> key_at mem (paths ! j)"
      using "1.prems"(1) by (simp add: sorted_iff_nth_mono)
    show ?thesis
    proof (cases "cmp_path_by_dirblock mem lit1 lit2 path_cstr path_size cp cn < 0")
      case lt: True
      then have kl: "k < key_at mem (paths ! mid)"
        using cur "1.prems"(6) by (simp add: cmp_path_less)
      have above: "\<forall>i. mid \<le> i \<and> i < length paths \<longrightarrow> \<not> key_at mem (paths ! i) \<le> k"
      proof (intro allI impI)
        fix i assume "mid \<le> i \<and> i < length paths"
        then have "key_at mem (paths ! mid) \<le> key_at mem (paths ! i)"
          using srt[of mid i] by simp
        then show "\<not> key_at mem (paths ! i) \<le> k" using kl by auto
      qed
      have "bisect_right_loop mem lit1 lit2 paths path_cstr path_size lo hi =
            bisect_right_loop mem lit1 lit2 paths path_cstr path_size lo mid"
        using True lt cur by (subst bisect_right_loop.simps) (simp add: mid_def Let_def)
      moreover have "bisect_right_loop mem lit1 lit2 paths path_cstr path_size lo mid \<le> length paths \<and>
         (\<forall>i. i < bisect_right_loop mem lit1 lit2 paths path_cstr path_size lo mid \<longrightarrow> key_at mem (paths ! i) \<le> k) \<and>
         (\<forall>i. bisect_right_loop mem lit1 lit2 paths path_cstr path_size lo mid \<le> i \<and> i < length paths \<longrightarrow> \<not> key_at mem (paths ! i) \<le> k)"
        by (rule "1.IH"(1)[OF True mid_def refl cur[symmetric] lt "1.prems"(1) _ _ "1.prems"(4) above "1.prems"(6)])
           (use m "1.prems"(3) in simp_all)
      ultimately show ?thesis by simp
    next
      case ge: False
      then have kl: "key_at mem (paths ! mid) \<le> k"
        using cur "1.prems"(6) by (simp add: cmp_path_less)
      have below: "\<forall>i. i < mid + 1 \<longrightarrow> key_at mem (paths ! i) \<le> k"
      proof (intro allI impI)
        fix i assume "i < mid + 1"
        then have "key_at mem (paths ! i) \<le> key_at mem (paths ! mid)"
          using srt[of i mid] m "1.prems"(3) by simp
        then show "key_at mem (paths ! i) \<le> k" using kl by simp
      qed
      have "bisect_right_loop mem lit1 lit2 paths path_cstr path_size lo hi =
            bisect_right_loop mem lit1 lit2 paths path_cstr path_size (mid + 1) hi"
        using True ge cur by (subst bisect_right_loop.simps) (simp add: mid_def Let_def)
      moreover have "bisect_right_loop mem lit1 lit2 paths path_cstr path_size (mid + 1) hi \<le> length paths \<and>
         (\<forall>i. i < bisect_right_loop mem lit1 lit2 paths path_cstr path_size (mid + 1) hi \<longrightarrow> key_at mem (paths ! i) \<le> k) \<and>
         (\<forall>i. bisect_right_loop mem lit1 lit2 paths path_cstr path_size (mid + 1) hi \<le> i \<and> i < length paths \<longrightarrow> \<not> key_at mem (paths ! i) \<le> k)"
        by (rule "1.IH"(2)[OF True mid_def refl cur[symmetric] ge "1.prems"(1) _ "1.prems"(3) below "1.prems"(5,6)])
           (use m in simp)
      ultimately show ?thesis by simp
    qed
  qed
qed

lemma filter_prefix:
  assumes "r \<le> length S" and "\<forall>i. i < r \<longrightarrow> P (S ! i)"
    and "\<forall>i. r \<le> i \<and> i < length S \<longrightarrow> \<not> P (S ! i)"
  shows "filter P S = take r S"
proof -
  have a: "\<forall>x \<in> set (take r S). P x"
    using assms(1,2) by (auto simp: in_set_conv_nth)
  have b: "\<forall>x \<in> set (drop r S). \<not> P x"
    using assms(1,3) by (auto simp: in_set_conv_nth)
  have "filter P S = filter P (take r S) @ filter P (drop r S)"
    by (metis append_take_drop_id filter_append)
  then show ?thesis using a b by (simp add: filter_id_conv filter_empty_conv)
qed

lemma length_filter_le_split:
  "length (filter (\<lambda>e. f e \<le> (k :: 'k :: linorder)) S) =
   length (filter (\<lambda>e. f e < k) S) + length (filter (\<lambda>e. f e = k) S)"
  by (induction S) auto

lemma sorted_insert_at:
  assumes "sorted (map f S)" and "r \<le> length S"
    and "\<forall>i. i < r \<longrightarrow> f (S ! i) \<le> (k :: 'k :: linorder)"
    and "\<forall>i. r \<le> i \<and> i < length S \<longrightarrow> k \<le> f (S ! i)"
    and "f x = k"
  shows "sorted (map f (insert_at r x S))"
proof -
  have a: "\<forall>y \<in> set (take r S). f y \<le> k"
    using assms(2,3) by (auto simp: in_set_conv_nth)
  have b: "\<forall>y \<in> set (drop r S). k \<le> f y"
    using assms(2,4) by (auto simp: in_set_conv_nth)
  have s1: "sorted (map f (take r S))" and s2: "sorted (map f (drop r S))"
    using assms(1) by (simp_all add: sorted_wrt_take sorted_wrt_drop sorted_map)
  show ?thesis
    unfolding insert_at_def
    using a b s1 s2 assms(5) by (auto simp: sorted_append intro: order_trans)
qed

lemma Nil_not_split_sep [simp]: "[] \<noteq> split_sep sep xs"
  using split_sep_not_Nil[of sep xs] by (rule not_sym)

lemma split_sep_inj: "split_sep c x = split_sep c y \<Longrightarrow> x = y"
proof (induction x arbitrary: y)
  case Nil
  then show ?case
    by (cases y) (auto split: if_splits list.splits)
next
  case (Cons a x)
  show ?case
  proof (cases y)
    case Nil
    then show ?thesis using Cons.prems by (auto split: if_splits list.splits)
  next
    case (Cons b y')
    have "a = b \<and> split_sep c x = split_sep c y'"
      using Cons.prems Cons by (auto split: if_splits list.splits)
    then show ?thesis using Cons.IH[of y'] Cons by simp
  qed
qed

lemma path_decomp_slash:
  assumes "CHR ''/'' \<in> set x"
  shows "dirname_of x @ CHR ''/'' # basename_of x = x"
proof -
  let ?P = "\<lambda>c. c \<noteq> CHR ''/''"
  have "dropWhile ?P (rev x) \<noteq> []" using assms by (simp add: dropWhile_eq_Nil_conv)
  then obtain ds where d: "dropWhile ?P (rev x) = CHR ''/'' # ds"
    using hd_dropWhile[of ?P "rev x"] by (cases "dropWhile ?P (rev x)") auto
  have "rev (takeWhile ?P (rev x) @ dropWhile ?P (rev x)) = x" by simp
  then have "rev (dropWhile ?P (rev x)) @ rev (takeWhile ?P (rev x)) = x"
    by (simp only: rev_append)
  then show ?thesis using d by (simp add: dirname_of_def basename_of_def)
qed

lemma path_decomp_no_slash:
  assumes "CHR ''/'' \<notin> set x"
  shows "dirname_of x = [] \<and> basename_of x = x"
proof -
  have tw: "takeWhile (\<lambda>c. c \<noteq> CHR ''/'') (rev x) = rev x"
    and dw: "dropWhile (\<lambda>c. c \<noteq> CHR ''/'') (rev x) = []"
    using assms by auto
  show ?thesis by (simp add: dirname_of_def basename_of_def tw dw)
qed

lemma path_key_inj_relative:
  assumes "path_key x = path_key y"
    and "x = [] \<or> hd x \<noteq> CHR ''/''" and "y = [] \<or> hd y \<noteq> CHR ''/''"
  shows "x = y"
proof -
  have "split_sep (CHR ''/'') (dirname_of x) = split_sep (CHR ''/'') (dirname_of y)"
    using assms(1) by (simp add: path_key_def map_map_of_char_eq)
  then have d: "dirname_of x = dirname_of y" by (rule split_sep_inj)
  have b: "basename_of x = basename_of y"
    using assms(1) by (simp add: path_key_def map_of_char_eq)
  show ?thesis
  proof (cases "CHR ''/'' \<in> set x")
    case True
    note dx = path_decomp_slash[OF True]
    show ?thesis
    proof (cases "CHR ''/'' \<in> set y")
      case True
      note dy = path_decomp_slash[OF True]
      have "dirname_of x @ CHR ''/'' # basename_of x = dirname_of y @ CHR ''/'' # basename_of y"
        by (simp only: d b)
      then show ?thesis by (simp only: dx dy)
    next
      case False
      then have "dirname_of x = []" using path_decomp_no_slash[OF False] d by simp
      then have "CHR ''/'' # basename_of x = x" using dx by simp
      then have "x \<noteq> [] \<and> hd x = CHR ''/''" by (metis list.sel(1) list.distinct(1))
      then show ?thesis using assms(2) by simp
    qed
  next
    case False
    note nx = path_decomp_no_slash[OF False]
    show ?thesis
    proof (cases "CHR ''/'' \<in> set y")
      case True
      note dy = path_decomp_slash[OF True]
      have "dirname_of y = []" using nx d by simp
      then have "CHR ''/'' # basename_of y = y" using dy by simp
      then have "y \<noteq> [] \<and> hd y = CHR ''/''" by (metis list.sel(1) list.distinct(1))
      then show ?thesis using assms(3) by simp
    next
      case False
      note ny = path_decomp_no_slash[OF False]
      have "x = basename_of x" using nx by simp
      also have "\<dots> = basename_of y" by (rule b)
      also have "\<dots> = y" using ny by simp
      finally show ?thesis .
    qed
  qed
qed

lemma relative_path_bytes:
  "relative_path mem (p, n) \<longleftrightarrow> bytes_at mem p n = [] \<or> hd (bytes_at mem p n) \<noteq> CHR ''/''"
  by (cases n) (simp_all add: relative_path_def bytes_at_Cons)

lemma sorted_paths_keys: "sorted_paths mem lit1 lit2 S \<longleftrightarrow> sorted (map (key_at mem) S)"
  unfolding sorted_paths_def sorted_map by (simp add: cmp_path_le split_def)

theorem bisect_path_sorted:
  assumes "sorted_paths mem lit1 lit2 S"
  shows "\<exists>l r. bisect_path_left_c mem lit1 lit2 (PyList S) (PyString tp tn) = Inr l \<and>
           bisect_path_right_c mem lit1 lit2 (PyList S) (PyString tp tn) = Inr r \<and>
           l \<le> r \<and> r \<le> length S \<and>
           sorted_paths mem lit1 lit2 (insert_at l (tp, tn) S) \<and>
           sorted_paths mem lit1 lit2 (insert_at r (tp, tn) S) \<and>
           r - l = equal_ranked mem lit1 lit2 S tp tn \<and>
           (list_all (relative_path mem) ((tp, tn) # S) \<longrightarrow> r - l = occurrences mem S tp tn)"
proof -
  define k where "k = path_key (bytes_at mem tp tn)"
  define l where "l = bisect_left_loop mem lit1 lit2 S tp tn 0 (length S)"
  define r where "r = bisect_right_loop mem lit1 lit2 S tp tn 0 (length S)"
  have srt: "sorted (map (key_at mem) S)"
    using assms by (simp add: sorted_paths_keys)
  have L: "l \<le> length S \<and> (\<forall>i. i < l \<longrightarrow> key_at mem (S ! i) < k) \<and>
           (\<forall>i. l \<le> i \<and> i < length S \<longrightarrow> \<not> key_at mem (S ! i) < k)"
    unfolding l_def by (rule bisect_left_loop_spec[OF srt]) (auto simp: k_def)
  have R: "r \<le> length S \<and> (\<forall>i. i < r \<longrightarrow> key_at mem (S ! i) \<le> k) \<and>
           (\<forall>i. r \<le> i \<and> i < length S \<longrightarrow> \<not> key_at mem (S ! i) \<le> k)"
    unfolding r_def by (rule bisect_right_loop_spec[OF srt]) (auto simp: k_def)
  have nl: "length (filter (\<lambda>e. key_at mem e < k) S) = l"
    using filter_prefix[of l S "\<lambda>e. key_at mem e < k"] L by simp
  have nr: "length (filter (\<lambda>e. key_at mem e \<le> k) S) = r"
    using filter_prefix[of r S "\<lambda>e. key_at mem e \<le> k"] R by simp
  have split: "r = l + length (filter (\<lambda>e. key_at mem e = k) S)"
    using length_filter_le_split[of "key_at mem" k S] nl nr by simp
  have eqr: "length (filter (\<lambda>e. key_at mem e = k) S) = equal_ranked mem lit1 lit2 S tp tn"
    unfolding equal_ranked_def k_def
    by (rule arg_cong[where f = length], rule filter_cong) (auto simp: cmp_path_eq)
  have insl: "sorted (map (key_at mem) (insert_at l (tp, tn) S))"
    by (rule sorted_insert_at[OF srt, where k = k]) (use L in \<open>auto simp: k_def\<close>)
  have insr: "sorted (map (key_at mem) (insert_at r (tp, tn) S))"
    by (rule sorted_insert_at[OF srt, where k = k]) (use R in \<open>auto simp: k_def\<close>)
  have occ: "length (filter (\<lambda>e. key_at mem e = k) S) = occurrences mem S tp tn"
    if rel: "list_all (relative_path mem) ((tp, tn) # S)"
    unfolding occurrences_def
  proof (rule arg_cong[where f = length], rule filter_cong)
    fix e assume e: "e \<in> set S"
    obtain p n where pn: "e = (p, n)" by (cases e)
    have re: "relative_path mem (p, n)" and rt: "relative_path mem (tp, tn)"
      using rel e pn by (auto simp: list_all_iff)
    show "(key_at mem e = k) = (case e of (p, n) \<Rightarrow> bytes_at mem p n = bytes_at mem tp tn)"
      using path_key_inj_relative[of "bytes_at mem p n" "bytes_at mem tp tn"] re rt
      by (auto simp: pn k_def relative_path_bytes)
  qed simp
  show ?thesis
    using L R split eqr insl insr occ
    by (auto simp: l_def[symmetric] r_def[symmetric] sorted_paths_keys)
qed

text \<open>
  C5, as stated, fails in its last part: \<open>/a\<close> and \<open>a\<close> both have the directory name
  \<open>''\<close> and the base name \<open>a\<close>, so they compare equal. In the one-element sorted list
  \<open>["/a"]\<close> the target \<open>a\<close> occurs 0 times, and the two bisections return 0 and 1.
\<close>

theorem bisect_path_count_counterexample:
  "sorted_paths (mem_of (''/a'' @ [CHR 0x00, CHR 0x00] @ ''a'')) 2 2 [(0, 2)] \<and>
   occurrences (mem_of (''/a'' @ [CHR 0x00, CHR 0x00] @ ''a'')) [(0, 2)] 4 1 = 0 \<and>
   bisect_path_left_c (mem_of (''/a'' @ [CHR 0x00, CHR 0x00] @ ''a'')) 2 2
     (PyList [(0, 2)]) (PyString 4 1) = Inr 0 \<and>
   bisect_path_right_c (mem_of (''/a'' @ [CHR 0x00, CHR 0x00] @ ''a'')) 2 2
     (PyList [(0, 2)]) (PyString 4 1) = Inr 1"
  by code_simp

theorem bisect_path_sorted_witness:
  "sorted_paths (mem_of (''a'' @ [CHR 0x00, CHR 0x00, CHR 0x00] @ ''a-b'' @ [CHR 0x00] @ ''a/b'')) 1 1
     [(0, 1), (4, 3), (8, 3)] \<and>
   bisect_path_left_c (mem_of (''a'' @ [CHR 0x00, CHR 0x00, CHR 0x00] @ ''a-b'' @ [CHR 0x00] @ ''a/b'')) 1 1
     (PyList [(0, 1), (4, 3), (8, 3)]) (PyString 4 3) = Inr 1 \<and>
   bisect_path_right_c (mem_of (''a'' @ [CHR 0x00, CHR 0x00, CHR 0x00] @ ''a-b'' @ [CHR 0x00] @ ''a/b'')) 1 1
     (PyList [(0, 1), (4, 3), (8, 3)]) (PyString 4 3) = Inr 2 \<and>
   sorted_paths (mem_of (''a'' @ [CHR 0x00, CHR 0x00, CHR 0x00] @ ''a-b'' @ [CHR 0x00] @ ''a/b'')) 1 1
     (insert_at 1 (4, 3) [(0, 1), (4, 3), (8, 3)]) \<and>
   sorted_paths (mem_of (''a'' @ [CHR 0x00, CHR 0x00, CHR 0x00] @ ''a-b'' @ [CHR 0x00] @ ''a/b'')) 1 1
     (insert_at 2 (4, 3) [(0, 1), (4, 3), (8, 3)]) \<and>
   occurrences (mem_of (''a'' @ [CHR 0x00, CHR 0x00, CHR 0x00] @ ''a-b'' @ [CHR 0x00] @ ''a/b''))
     [(0, 1), (4, 3), (8, 3)] 4 3 = 1"
proof -
  let ?M = "mem_of (''a'' @ [CHR 0x00, CHR 0x00, CHR 0x00] @ ''a-b'' @ [CHR 0x00] @ ''a/b'')"
  let ?S = "[(0, 1), (4, 3), (8, 3)] :: (nat \<times> nat) list"
  have s: "sorted_paths ?M 1 1 ?S" by code_simp
  have l: "bisect_path_left_c ?M 1 1 (PyList ?S) (PyString 4 3) = Inr 1" by code_simp
  have r: "bisect_path_right_c ?M 1 1 (PyList ?S) (PyString 4 3) = Inr 2" by code_simp
  have o: "occurrences ?M ?S 4 3 = 1" by code_simp
  from bisect_path_sorted[OF s, of 4 3] l r o s show ?thesis by auto
qed

section \<open>Properties of the record reader\<close>

lemma and_then_Inr_iff:
  "and_then m f = Inr y \<longleftrightarrow> (\<exists>x. m = Inr x \<and> f x = Inr y)"
  by (cases m) (simp_all add: and_then_def)

lemma and_then_simps [simp]:
  "and_then (Inl e) f = Inl e" "and_then (Inr x) f = f x"
  by (simp_all add: and_then_def)

lemma memchr_bounds: "memchr buf s c n = Some p \<Longrightarrow> s \<le> p \<and> p < s + n \<and> byte_at buf p = c"
proof (induction n arbitrary: s)
  case 0
  then show ?case by simp
next
  case (Suc n)
  show ?case
  proof (cases "byte_at buf s = c")
    case True
    then show ?thesis using Suc.prems by simp
  next
    case False
    then have "memchr buf (Suc s) c n = Some p" using Suc.prems by simp
    from Suc.IH[OF this] show ?thesis by simp
  qed
qed

lemma get_next_advances:
  assumes "get_next r = Inr ((nxt, n), r')"
  shows "cur_cstr r = Some nxt \<and> cur_cstr r' = Some (nxt + n + 1) \<and> nxt + n < end_cstr r \<and>
         rtext r' = rtext r \<and> end_cstr r' = end_cstr r \<and> byte_at (rtext r) (nxt + n) = NUL"
proof -
  obtain c where c: "cur_cstr r = Some c" using assms by (cases "cur_cstr r") (simp_all add: get_next_def)
  then have lt: "c < end_cstr r" using assms by (auto simp: get_next_def split: if_splits)
  obtain nul where m: "memchr (rtext r) c NUL (end_cstr r - c) = Some nul"
    using assms c lt by (cases "memchr (rtext r) c NUL (end_cstr r - c)") (simp_all add: get_next_def)
  from memchr_bounds[OF m] have b: "c \<le> nul" "nul < c + (end_cstr r - c)" "byte_at (rtext r) nul = NUL"
    by simp_all
  have "nxt = c" "n = nul - c" "r' = r\<lparr>cur_cstr := Some (nul + 1)\<rparr>"
    using assms c lt m by (auto simp: get_next_def)
  then show ?thesis using c lt b by simp
qed

lemma get_next_str_advances:
  assumes "get_next_str r = Inr (s, r')"
  shows "\<exists>c c'. cur_cstr r = Some c \<and> cur_cstr r' = Some c' \<and> c < c' \<and> c' \<le> end_cstr r \<and>
         rtext r' = rtext r \<and> end_cstr r' = end_cstr r"
proof -
  obtain nxt n where g: "get_next r = Inr ((nxt, n), r')"
    using assms by (auto simp: get_next_str_def safe_string_from_size_def split: sum.splits)
  from get_next_advances[OF g] show ?thesis by simp
qed

lemma advanced_trans: "advanced r1 r2 \<Longrightarrow> advanced r2 r3 \<Longrightarrow> advanced r1 r3"
  by (auto simp: advanced_def)

lemma get_next_advanced: "get_next r = Inr (x, r') \<Longrightarrow> advanced r r'"
  using get_next_advances[of r "fst x" "snd x" r'] by (auto simp: advanced_def)

lemma get_next_str_advanced: "get_next_str r = Inr (s, r') \<Longrightarrow> advanced r r'"
  using get_next_str_advances[of r s r'] by (auto simp: advanced_def)

lemma read_trees_advanced:
  "read_trees i r trees = Inr (ts, r') \<Longrightarrow> r' = r \<or> advanced r r'"
proof (induction i arbitrary: r trees)
  case 0
  then show ?case by simp
next
  case (Suc i)
  from Suc.prems obtain minikind r1 fingerprint r2 x3 r3 x4 r4 info r5 where
    s: "get_next_str r = Inr (minikind, r1)" "get_next_str r1 = Inr (fingerprint, r2)"
       "get_next r2 = Inr (x3, r3)" "get_next r3 = Inr (x4, r4)"
       "get_next_str r4 = Inr (info, r5)"
    and rec: "read_trees i r5
         (trees @ [(minikind, fingerprint, strtoul (slice (rtext r) (fst x3) (snd x3)),
                    byte_at (rtext r) (fst x4) = CHR ''y'', info)]) = Inr (ts, r')"
    by (auto simp: and_then_Inr_iff)
  have "advanced r r5"
    using get_next_str_advanced[OF s(1)] get_next_str_advanced[OF s(2)]
      get_next_advanced[OF s(3)] get_next_advanced[OF s(4)] get_next_str_advanced[OF s(5)]
    by (auto simp: advanced_def)
  then show ?case using Suc.IH[OF rec] by (auto intro: advanced_trans)
qed

lemma read_entry_advanced:
  assumes "read_entry r num_trees d = Inr (ret, d', nb, r')"
  shows "advanced r r'"
proof -
  from assms obtain x1 r1 name r2 file_id r3 trees where
    s: "get_next r = Inr (x1, r1)" "get_next_str r1 = Inr (name, r2)"
       "get_next_str r2 = Inr (file_id, r3)" "read_trees num_trees r3 [] = Inr (trees, r')"
    unfolding read_entry_def by (auto simp: and_then_Inr_iff)
  have "advanced r r3"
    using get_next_advanced[OF s(1)] get_next_str_advanced[OF s(2)]
      get_next_str_advanced[OF s(3)]
    by (auto simp: advanced_def)
  then show ?thesis using read_trees_advanced[OF s(4)] by (auto intro: advanced_trans)
qed

lemma get_entry_advanced:
  assumes "get_entry r num_trees d = Inr (ret, d', nb, r')"
  shows "advanced r r'"
proof -
  from assms obtain ret4 d4 nb4 r4 x5 where
    s: "read_entry r num_trees d = Inr (ret4, d4, nb4, r4)" "get_next r4 = Inr (x5, r')"
    unfolding get_entry_def by (auto simp: and_then_Inr_iff split: if_splits)
  then show ?thesis
    using read_entry_advanced[OF s(1)] get_next_advanced[OF s(2)]
    by (auto simp: advanced_def)
qed

termination parse_loop
proof (relation "measure (\<lambda>(num_trees, st).
    end_cstr (rd st) - (case cur_cstr (rd st) of None \<Rightarrow> 0 | Some c \<Rightarrow> c))", goal_cases)
  case 1
  then show ?case by simp
next
  case (2 num_trees st x e y dirname z new_block r')
  then have "get_entry (rd st) num_trees (current_dirname st) = Inr (e, dirname, new_block, r')"
    by simp
  from get_entry_advanced[OF this] show ?case
    by (auto simp: advanced_def append_entry_def open_block_def)
qed

declare parse_loop.simps [simp del]

lemma new_reader_Some: "new_reader (Some t) = Inr (reader_of t)"
  by (simp add: new_reader_def reader_of_def)

lemma init_only_get_next:
  "init r = (case get_next r of Inl e \<Rightarrow> Inl e | Inr (x, r') \<Rightarrow> Inr r')"
proof (cases "get_next r")
  case (Inl e)
  then show ?thesis by (simp add: init_def)
next
  case (Inr y)
  obtain first n r' where y: "y = ((first, n), r')" by (cases y) auto
  from get_next_advances[of r first n r'] Inr y
  have "byte_at (rtext r) (first + n) = NUL" by simp
  then show ?thesis using Inr y by (auto simp: init_def)
qed

lemma memchr_first:
  "memchr buf s c n = Some p \<Longrightarrow> s \<le> i \<Longrightarrow> i < p \<Longrightarrow> byte_at buf i \<noteq> c"
proof (induction n arbitrary: s)
  case 0
  then show ?case by simp
next
  case (Suc n)
  show ?case
  proof (cases "byte_at buf s = c")
    case True
    then show ?thesis using Suc.prems by simp
  next
    case False
    then have m: "memchr buf (Suc s) c n = Some p" using Suc.prems by simp
    show ?thesis
    proof (cases "i = s")
      case True
      then show ?thesis using False by simp
    next
      case ne: False
      then show ?thesis using Suc.IH[OF m] Suc.prems by simp
    qed
  qed
qed

lemma get_next_field_length:
  assumes "get_next r = Inr ((t, n), r')"
  shows "length (slice (rtext r) t n) = n"
proof (cases n)
  case 0
  then show ?thesis by (simp add: slice_def)
next
  case (Suc k)
  obtain nul where m: "memchr (rtext r) t NUL (end_cstr r - t) = Some nul" and n: "n = nul - t"
    using assms by (auto simp: get_next_def split: option.splits if_splits)
  have "byte_at (rtext r) (t + k) \<noteq> NUL"
    using memchr_first[OF m, of "t + k"] n Suc by simp
  then have "t + k < length (rtext r)"
    by (auto simp: byte_at_def split: if_splits)
  then show ?thesis using Suc by (simp add: slice_def)
qed

lemma slice_one: "slice buf t 1 = [c] \<longleftrightarrow> t < length buf \<and> byte_at buf t = c"
  by (cases "drop t buf") (auto simp: slice_def byte_at_def hd_drop_conv_nth dest: arg_cong[where f = hd])

text \<open>
  C7. \<open>_init\<close> is meant to fail when the first field is not empty, as its comment and
  its message say, but its test \<open>first[0] != '\\0' and size == 0\<close> is never true: a field
  of size 0 starts with its NUL. On the text \<open>x\\0\<close>, whose first field is \<open>x\<close>,
  \<open>_init\<close> succeeds and leaves the cursor after the field.
\<close>

theorem init_accepts_nonempty_first_field:
  "init (reader_of (''x'' @ [NUL])) =
     Inr \<lparr>rtext = ''x'' @ [NUL], end_cstr = 2, cur_cstr = Some 2\<rparr>"
  by (simp add: init_def get_next_def reader_of_def byte_at_def)

lemma strncmp_empty:
  "byte_at buf p = NUL \<Longrightarrow> strncmp (drop p buf) [] 1 = 0"
  by (cases "drop p buf") (auto simp: byte_at_def hd_drop_conv_nth Let_def dest: arg_cong[where f = hd] split: if_splits)

lemma read_entry_dirname:
  assumes "read_entry r k d = Inr (ret, d', nb, r')"
  shows "row_dirname ret = d' \<and> (\<not> nb \<longrightarrow> d' = d) \<and> (nb \<and> d = [] \<longrightarrow> d' \<noteq> [])"
proof -
  from assms obtain p n r1 where g: "get_next r = Inr ((p, n), r1)"
    unfolding read_entry_def by (auto simp: and_then_Inr_iff)
  note adv = get_next_advances[OF g] and len = get_next_field_length[OF g]
  have z: "n = 0 \<Longrightarrow> strncmp (drop p (rtext r)) [] (n + 1) = 0"
    using adv strncmp_empty[of "rtext r" p] by simp
  show ?thesis
    using assms g len z unfolding read_entry_def row_dirname_def
    by (auto simp: and_then_Inr_iff safe_string_from_size_def split: if_splits)
qed

lemma get_entry_dirname:
  assumes "get_entry r k d = Inr (ret, d', nb, r')"
  shows "row_dirname ret = d' \<and> (\<not> nb \<longrightarrow> d' = d) \<and> (nb \<and> d = [] \<longrightarrow> d' \<noteq> [])"
proof -
  from assms obtain r4 where "read_entry r k d = Inr (ret, d', nb, r4)"
    unfolding get_entry_def by (auto simp: and_then_Inr_iff split: if_splits)
  then show ?thesis by (rule read_entry_dirname)
qed

section \<open>Properties of the leaf serialiser\<close>

lemma for_each_str_bytes_no_ValueError: "for_each str_bytes xs \<noteq> Inl ValueError"
proof (induction xs)
  case Nil
  then show ?case by simp
next
  case (Cons x xs)
  then show ?case
    by (cases x; cases "for_each str_bytes xs") (auto simp: and_then_def)
qed

lemma py_join_no_ValueError: "py_join sep x \<noteq> Inl ValueError"
  using for_each_str_bytes_no_ValueError
  by (cases x) (auto simp: py_join_def and_then_def split: sum.splits)

lemma reference_len_no_ValueError: "reference_len x \<noteq> Inl ValueError"
  using for_each_str_bytes_no_ValueError[of "items x"]
  by (auto simp: reference_len_def Let_def and_then_def split: sum.splits)

lemma for_each_no_ValueError:
  "(\<And>x. f x \<noteq> Inl ValueError) \<Longrightarrow> for_each f xs \<noteq> Inl ValueError"
proof (induction xs)
  case Nil
  then show ?case by simp
next
  case (Cons x xs)
  then show ?case
    by (cases "f x"; cases "for_each f xs") (auto simp: and_then_def)
qed

lemma ref_list_len_no_ValueError: "ref_list_len x \<noteq> Inl ValueError"
  using for_each_no_ValueError[of reference_len, OF reference_len_no_ValueError]
  by (cases x) (auto simp: ref_list_len_def and_then_def split: sum.splits)

lemma ref_lists_len_no_ValueError: "ref_lists_len x \<noteq> Inl ValueError"
  using for_each_no_ValueError[of ref_list_len, OF ref_list_len_no_ValueError]
  by (cases x) (auto simp: ref_lists_len_def and_then_def split: sum.splits)

lemma str_bytes_no_ValueError: "str_bytes x \<noteq> Inl ValueError"
  by (cases x) auto

text \<open>
  C9, as stated, fails for the mode without reference lists: there \<open>_flatten_node\<close>
  rejects a node only when it has fewer than 3 items (\<open>we need at least 3 entries\<close>).
  A 5-tuple is serialised from its items 1 and 2.
\<close>

theorem flatten_node_five_tuple_counterexample:
  "flatten_node (PyTuple [PyNone, PyTuple [PyStr ''k''], PyStr ''v'', PyNone, PyNone]) False =
     Inr (''k'', ''k'' @ [NUL, NUL] @ ''v'' @ [LF])"
  by (simp add: flatten_node_def py_join_def)

text \<open>
  C9, amended. For a node that is a tuple or a \<open>StaticTuple\<close>, \<open>_flatten_node\<close> raises
  \<open>ValueError\<close> exactly when reference lists are enabled and the node does not have 4
  items, or reference lists are disabled and the node has fewer than 3 items.
\<close>

theorem flatten_node_arity:
  assumes "is_tuple node"
  shows "flatten_node node reference_lists = Inl ValueError \<longleftrightarrow>
           (if reference_lists then length (items node) \<noteq> 4 else length (items node) < 3)"
proof -
  have "and_then (py_join NUL (items node ! 1)) (\<lambda>string_key.
             and_then (if reference_lists then ref_lists_len (items node ! 3) else Inr 0)
               (\<lambda>refs_len.
             and_then (str_bytes (items node ! 2)) (\<lambda>val.
               Inr (string_key,
                    string_key @ [NUL]
                    @ (if 0 < refs_len then write_ref_lists (items node ! 3) else [])
                    @ [NUL] @ val @ [LF])))) \<noteq> Inl ValueError"
    using py_join_no_ValueError[of NUL "items node ! 1"]
      ref_lists_len_no_ValueError[of "items node ! 3"]
      str_bytes_no_ValueError[of "items node ! 2"]
    by (auto simp: and_then_def split: sum.splits)
  then show ?thesis
    using assms by (auto simp: flatten_node_def Let_def)
qed

theorem flatten_node_arity_witness:
  "flatten_node (PyTuple [PyNone, PyTuple [PyStr ''k''], PyStr ''v'']) True = Inl ValueError \<and>
   flatten_node (PyTuple [PyNone, PyTuple [PyStr ''k'']]) False = Inl ValueError \<and>
   flatten_node (PyTuple [PyNone, PyTuple [PyStr ''k''], PyStr ''v'', PyNone]) False
     \<noteq> Inl ValueError"
  using flatten_node_arity[of "PyTuple [PyNone, PyTuple [PyStr ''k''], PyStr ''v'']" True]
    flatten_node_arity[of "PyTuple [PyNone, PyTuple [PyStr ''k'']]" False]
    flatten_node_arity[of "PyTuple [PyNone, PyTuple [PyStr ''k''], PyStr ''v'', PyNone]" False]
  by simp

section \<open>Properties of the leaf parser\<close>

lemma process_line_advances:
  assumes "process_line buf p = Some (Inr p')" and "cur_str p < end_str p"
  shows "end_str p' = end_str p \<and> cur_str p < cur_str p'"
proof -
  obtain lastp next_line where m:
    "(case memchr buf (cur_str p) LF (end_str p - cur_str p) of
        None \<Rightarrow> (end_str p, end_str p) | Some nl \<Rightarrow> (nl, nl + 1)) = (lastp, next_line)"
    by (cases "case memchr buf (cur_str p) LF (end_str p - cur_str p) of
        None \<Rightarrow> (end_str p, end_str p) | Some nl \<Rightarrow> (nl, nl + 1)") auto
  have nl: "cur_str p < next_line"
    using m assms(2) memchr_bounds[of buf "cur_str p" LF "end_str p - cur_str p"]
    by (auto split: option.splits)
  have "end_str p' = end_str p \<and> cur_str p' = next_line"
    using assms(1) m unfolding process_line_def
    by (auto simp: Let_def split: if_splits sum.splits option.splits prod.splits)
  then show ?thesis using nl by simp
qed

termination leaf_loop
proof (relation "measure (\<lambda>(buf, p). end_str p - cur_str p)", goal_cases)
  case 1
  then show ?case by simp
next
  case (2 buf p x2 b)
  then show ?case using process_line_advances[of buf p b] by auto
qed

declare leaf_loop.simps [simp del]

text \<open>
  C8. The first non-empty line of a leaf must be the header \<open>type=leaf\<close>, as the comment
  and the message of \<open>process_line\<close> say, but the test is
  \<open>strncmp("type=leaf", self._start, last - self._start) == 0\<close>, which compares only as
  many bytes as the line has. A line that is a non-empty proper prefix of the header
  passes: the leaf \<open>type\<close>, then the line of key \<open>k\<close> with value \<open>v\<close>, parses to that entry.
\<close>

theorem parse_leaf_lines_accepts_header_prefix:
  "parse_leaf_lines (PyStr (''type'' @ [LF] @ ''k'' @ [NUL, NUL] @ ''v'' @ [LF])) 1 0 =
     Some (Inr [([''k''], ''v'', [])])"
  by code_simp

lemma byte_at_drop: "drop s buf = x # rest \<Longrightarrow> byte_at buf s = x"
  by (metis Cons_nth_drop_Suc byte_at_def drop_all list.distinct(1) list.inject not_le)

lemma drop_Suc_of_Cons: "drop s buf = x # rest \<Longrightarrow> drop (Suc s) buf = rest"
  by (metis drop_Suc list.sel(3) tl_drop)

lemma drop_add_of_append: "drop s buf = xs @ rest \<Longrightarrow> drop (s + length xs) buf = rest"
  by (metis add.commute append_eq_conv_conj drop_drop)

lemma slice_of_append: "drop s buf = xs @ rest \<Longrightarrow> slice buf s (length xs) = xs"
  by (simp add: slice_def)

lemma memchr_found:
  "drop s buf = xs @ c # rest \<Longrightarrow> c \<notin> set xs \<Longrightarrow> length xs < n \<Longrightarrow>
   memchr buf s c n = Some (s + length xs)"
proof (induction xs arbitrary: s n)
  case Nil
  then obtain m where "n = Suc m" by (cases n) auto
  then show ?case using Nil byte_at_drop[of s buf c rest] by simp
next
  case (Cons x xs)
  then obtain m where n: "n = Suc m" by (cases n) auto
  have b: "byte_at buf s = x" using Cons.prems(1) byte_at_drop by fastforce
  have d: "drop (Suc s) buf = xs @ c # rest" using Cons.prems(1) drop_Suc_of_Cons by fastforce
  have "memchr buf (Suc s) c m = Some (Suc s + length xs)"
    using Cons.IH[OF d] Cons.prems n by simp
  then show ?case using b n Cons.prems(2) by auto
qed

lemma memchr_none:
  "drop s buf = xs @ rest \<Longrightarrow> c \<notin> set xs \<Longrightarrow> n \<le> length xs \<Longrightarrow> memchr buf s c n = None"
proof (induction n arbitrary: s xs)
  case 0
  then show ?case by simp
next
  case (Suc n)
  then obtain x xs' where xs: "xs = x # xs'" by (cases xs) auto
  have b: "byte_at buf s = x" using Suc.prems(1) xs byte_at_drop by fastforce
  have d: "drop (Suc s) buf = xs' @ rest" using Suc.prems(1) xs drop_Suc_of_Cons by fastforce
  have "memchr buf (Suc s) c n = None"
    using Suc.IH[OF d] Suc.prems xs by simp
  then show ?case using b xs Suc.prems(2) by auto
qed

lemma memrchr_loop_found:
  "drop s buf = xs @ c # ys @ rest \<Longrightarrow> c \<notin> set ys \<Longrightarrow>
   memrchr_loop buf s c (length xs + 1 + length ys) = Some (s + length xs)"
proof (induction ys arbitrary: rest rule: rev_induct)
  case Nil
  have "drop (s + length xs) buf = c # rest"
    using Nil.prems(1) drop_add_of_append[of s buf xs "c # rest"] by simp
  then have "byte_at buf (s + length xs) = c" by (rule byte_at_drop)
  then show ?case by simp
next
  case (snoc y ys)
  have d: "drop s buf = (xs @ c # ys) @ y # rest" using snoc.prems(1) by simp
  have "drop (s + length (xs @ c # ys)) buf = y # rest"
    using drop_add_of_append[OF d] .
  then have "byte_at buf (s + length (xs @ c # ys)) = y" by (rule byte_at_drop)
  then have b: "byte_at buf (s + (length xs + 1 + length ys)) \<noteq> c"
    using snoc.prems(2) by (auto simp: add.assoc)
  have ih: "memrchr_loop buf s c (length xs + 1 + length ys) = Some (s + length xs)"
    using snoc.IH[of "y # rest"] snoc.prems by simp
  have "length xs + 1 + length (ys @ [y]) = Suc (length xs + 1 + length ys)" by simp
  then show ?case using b ih by (simp del: One_nat_def)
qed

section \<open>Serialising and parsing back\<close>

lemma join_loop_join:
  "join_loop sep True xs = join sep xs"
  "join_loop sep False xs = (if xs = [] then [] else sep # join sep xs)"
proof (induction xs rule: join.induct)
  case (1 sep)
  { case 1 show ?case by simp next case 2 show ?case by simp }
next
  case (2 sep x)
  { case 1 show ?case by simp next case 2 show ?case by simp }
next
  case (3 sep x y ys)
  { case 1 then show ?case using 3 by simp next case 2 then show ?case using 3 by simp }
qed

lemma join_Cons: "ys \<noteq> [] \<Longrightarrow> join sep (x # ys) = x @ sep # join sep ys"
  by (cases ys) simp_all

lemma sep_notin_join:
  "\<forall>x \<in> set xs. c \<notin> set x \<Longrightarrow> c \<noteq> sep \<Longrightarrow> c \<notin> set (join sep xs)"
  by (induction xs rule: join.induct) auto

lemma key_element_value:
  "(if kl = 1 \<and> (s + length k) - s = 45 \<and> strncmp (drop s buf) ''sha1:'' 5 = 0
    then safe_string_from_size buf s (int (s + length k) - int s)
    else safe_interned_string_from_size buf s (int (s + length k) - int s)) =
   Inr (slice buf s (length k))"
  by (simp add: safe_string_from_size_def safe_interned_string_from_size_def)

lemma extract_key_loop_done:
  "\<not> lc < kl \<Longrightarrow> extract_key_loop buf kl lastp lc s acc = Inr (acc, s)"
  by (subst extract_key_loop.simps) simp

lemma extract_key_loop_step:
  assumes "lc < kl"
    and "(case memchr buf s NUL (lastp - s) of
            None \<Rightarrow> if lc + 1 = kl then Inr lastp else Inl (AssertionError InvalidKeySegment)
          | Some p \<Rightarrow> Inr p) = Inr (s + length k)"
    and "drop s buf = k @ rest"
  shows "extract_key_loop buf kl lastp lc s acc =
         extract_key_loop buf kl lastp (lc + 1) (s + length k + 1) (acc @ [k])"
proof -
  have sl: "slice buf s (length k) = k" using assms(3) by (rule slice_of_append)
  show ?thesis
    apply (subst extract_key_loop.simps)
    apply (simp only: assms(1) assms(2) if_True and_then_simps key_element_value sl)
    done
qed

lemma extract_key_loop_key:
  assumes "ks \<noteq> []" and "length ks = kl - lc"
    and "\<forall>seg \<in> set ks. NUL \<notin> set seg"
    and "drop s buf = join NUL ks @ rest"
    and "lastp = s + length (join NUL ks) \<or>
         (s + length (join NUL ks) < lastp \<and> (\<exists>rest'. rest = NUL # rest'))"
  shows "extract_key_loop buf kl lastp lc s acc = Inr (acc @ ks, s + length (join NUL ks) + 1)"
  using assms
proof (induction ks arbitrary: lc s acc)
  case Nil
  then show ?case by simp
next
  case (Cons k ks)
  have lc: "lc < kl" using Cons.prems(2) by simp
  have nk: "NUL \<notin> set k" using Cons.prems(3) by simp
  show ?case
  proof (cases "ks = []")
    case True
    then have j: "join NUL (k # ks) = k" by simp
    have last_seg: "lc + 1 = kl" using Cons.prems(2) True by simp
    have d: "drop s buf = k @ rest" using Cons.prems(4) j by simp
    have m: "(case memchr buf s NUL (lastp - s) of
            None \<Rightarrow> if lc + 1 = kl then Inr lastp else Inl (AssertionError InvalidKeySegment)
          | Some p \<Rightarrow> Inr p) = Inr (s + length k)"
    proof (cases "lastp = s + length k")
      case eq: True
      have "memchr buf s NUL (lastp - s) = None"
        using memchr_none[OF d nk, of "lastp - s"] eq by simp
      then show ?thesis using last_seg eq by simp
    next
      case False
      then obtain rest' where r: "rest = NUL # rest'" and lt: "s + length k < lastp"
        using Cons.prems(5) j by auto
      have "memchr buf s NUL (lastp - s) = Some (s + length k)"
        using memchr_found[of s buf k NUL rest' "lastp - s"] d r nk lt by simp
      then show ?thesis by simp
    qed
    have "extract_key_loop buf kl lastp lc s acc =
          extract_key_loop buf kl lastp (lc + 1) (s + length k + 1) (acc @ [k])"
      using extract_key_loop_step[OF lc m d] .
    also have "\<dots> = Inr (acc @ [k], s + length k + 1)"
      using last_seg by (simp add: extract_key_loop_done)
    finally show ?thesis using True j by simp
  next
    case False
    then have j: "join NUL (k # ks) = k @ NUL # join NUL ks" by (rule join_Cons)
    have d: "drop s buf = k @ (NUL # join NUL ks @ rest)" using Cons.prems(4) j by simp
    have lt: "length k < lastp - s" using Cons.prems(5) j by auto
    have "memchr buf s NUL (lastp - s) = Some (s + length k)"
      using memchr_found[OF d nk lt] .
    then have m: "(case memchr buf s NUL (lastp - s) of
            None \<Rightarrow> if lc + 1 = kl then Inr lastp else Inl (AssertionError InvalidKeySegment)
          | Some p \<Rightarrow> Inr p) = Inr (s + length k)"
      by simp
    have step: "extract_key_loop buf kl lastp lc s acc =
          extract_key_loop buf kl lastp (lc + 1) (s + length k + 1) (acc @ [k])"
      using extract_key_loop_step[OF lc m d] .
    have d': "drop (s + length k + 1) buf = join NUL ks @ rest"
      using drop_add_of_append[OF d] drop_Suc_of_Cons[of "s + length k" buf NUL "join NUL ks @ rest"]
      by simp
    have len: "length ks = kl - (lc + 1)" using Cons.prems(2) by simp
    have p5: "lastp = (s + length k + 1) + length (join NUL ks) \<or>
         ((s + length k + 1) + length (join NUL ks) < lastp \<and> (\<exists>rest'. rest = NUL # rest'))"
      using Cons.prems(5) j by auto
    have "extract_key_loop buf kl lastp (lc + 1) (s + length k + 1) (acc @ [k]) =
          Inr ((acc @ [k]) @ ks, (s + length k + 1) + length (join NUL ks) + 1)"
      using Cons.IH[OF False len _ d' p5] Cons.prems(3) by simp
    then show ?thesis using step j by simp
  qed
qed

lemma join_nonempty: "xs \<noteq> [] \<Longrightarrow> xs \<noteq> [[]] \<Longrightarrow> join sep xs \<noteq> []"
  by (induction sep xs rule: join.induct) auto

lemma ref_key_text:
  assumes "0 < kl" and "ref_key kl k"
  shows "key_text k \<noteq> []" and "CR \<notin> set (key_text k)" and "TAB \<notin> set (key_text k)"
    and "\<forall>seg \<in> set k. NUL \<notin> set seg" and "k \<noteq> []" and "length k = kl"
proof -
  have k: "length k = kl" "\<forall>seg \<in> set k. ref_bit seg" "k \<noteq> [[]]"
    using assms(2) by (simp_all add: ref_key_def list_all_iff)
  show "k \<noteq> []" using k(1) assms(1) by auto
  then show "key_text k \<noteq> []"
    unfolding key_text_def using k(3) by (rule join_nonempty)
  show "CR \<notin> set (key_text k)"
    unfolding key_text_def using k(2) by (intro sep_notin_join) (auto simp: ref_bit_def)
  show "TAB \<notin> set (key_text k)"
    unfolding key_text_def using k(2) by (intro sep_notin_join) (auto simp: ref_bit_def)
  show "\<forall>seg \<in> set k. NUL \<notin> set seg" using k(2) by (auto simp: ref_bit_def)
  show "length k = kl" by (rule k(1))
qed

lemma ref_list_loop_done:
  "\<not> s < ref_ptr \<Longrightarrow> ref_list_loop buf kl ref_ptr s acc = Some (Inr acc)"
  by (subst ref_list_loop.simps) simp

lemma ref_list_loop_step:
  assumes "s < ref_ptr"
    and "(case memchr buf s CR (ref_ptr - s) of None \<Rightarrow> ref_ptr | Some p \<Rightarrow> p) = t"
    and "extract_key buf kl t s = Inr (k, s')"
  shows "ref_list_loop buf kl ref_ptr s acc = ref_list_loop buf kl ref_ptr s' (acc @ [k])"
  by (subst ref_list_loop.simps) (simp add: assms Let_def)

lemma ref_list_loop_keys:
  assumes "0 < kl" and "list_all (ref_key kl) rl"
    and "drop s buf = ref_list_text rl @ rest" and "ref_ptr = s + length (ref_list_text rl)"
  shows "ref_list_loop buf kl ref_ptr s acc = Some (Inr (acc @ rl))"
  using assms(2) assms(3) assms(4)
proof (induction rl arbitrary: s acc)
  case Nil
  then show ?case by (simp add: ref_list_text_def ref_list_loop_done)
next
  case (Cons k rl)
  have rk: "ref_key kl k" using Cons.prems(1) by simp
  note kt = ref_key_text[OF assms(1) rk]
  let ?kt = "key_text k"
  show ?case
  proof (cases "rl = []")
    case True
    then have tx: "ref_list_text (k # rl) = ?kt" by (simp add: ref_list_text_def)
    have d: "drop s buf = ?kt @ rest" using Cons.prems(2) tx by simp
    have rp: "ref_ptr = s + length ?kt" using Cons.prems(3) tx by simp
    have lt: "s < ref_ptr" using rp kt(1) by simp
    have "memchr buf s CR (ref_ptr - s) = None"
      using memchr_none[OF d kt(2), of "ref_ptr - s"] rp by simp
    then have m: "(case memchr buf s CR (ref_ptr - s) of None \<Rightarrow> ref_ptr | Some p \<Rightarrow> p) = ref_ptr"
      by simp
    have ek: "extract_key buf kl ref_ptr s = Inr (k, ref_ptr + 1)"
      unfolding extract_key_def
      using extract_key_loop_key[of k kl 0 s buf rest ref_ptr "[]"] kt d rp
      by (simp add: key_text_def)
    have "ref_list_loop buf kl ref_ptr s acc = ref_list_loop buf kl ref_ptr (ref_ptr + 1) (acc @ [k])"
      using ref_list_loop_step[OF lt m ek] .
    then show ?thesis using True by (simp add: ref_list_loop_done)
  next
    case False
    then have tx: "ref_list_text (k # rl) = ?kt @ CR # ref_list_text rl"
      by (simp add: ref_list_text_def join_Cons)
    have d: "drop s buf = ?kt @ CR # (ref_list_text rl @ rest)" using Cons.prems(2) tx by simp
    have rp: "ref_ptr = s + length ?kt + 1 + length (ref_list_text rl)"
      using Cons.prems(3) tx by simp
    have lt: "s < ref_ptr" using rp by simp
    have "memchr buf s CR (ref_ptr - s) = Some (s + length ?kt)"
      using memchr_found[OF d kt(2), of "ref_ptr - s"] rp by simp
    then have m: "(case memchr buf s CR (ref_ptr - s) of None \<Rightarrow> ref_ptr | Some p \<Rightarrow> p) =
        s + length ?kt"
      by simp
    have ek: "extract_key buf kl (s + length ?kt) s = Inr (k, s + length ?kt + 1)"
      unfolding extract_key_def
      using extract_key_loop_key[of k kl 0 s buf "CR # (ref_list_text rl @ rest)"
          "s + length ?kt" "[]"] kt d
      by (simp add: key_text_def)
    have step: "ref_list_loop buf kl ref_ptr s acc =
        ref_list_loop buf kl ref_ptr (s + length ?kt + 1) (acc @ [k])"
      using ref_list_loop_step[OF lt m ek] .
    have d': "drop (s + length ?kt + 1) buf = ref_list_text rl @ rest"
      using drop_add_of_append[OF d]
        drop_Suc_of_Cons[of "s + length ?kt" buf CR "ref_list_text rl @ rest"]
      by simp
    have "ref_list_loop buf kl ref_ptr (s + length ?kt + 1) (acc @ [k]) =
        Some (Inr ((acc @ [k]) @ rl))"
      using Cons.IH[OF _ d'] Cons.prems(1) rp by simp
    then show ?thesis using step by simp
  qed
qed

lemma ref_list_text_no_tab:
  assumes "0 < kl" and "list_all (ref_key kl) rl"
  shows "TAB \<notin> set (ref_list_text rl)"
  unfolding ref_list_text_def
  using assms ref_key_text(3)[OF assms(1)]
  by (intro sep_notin_join) (auto simp: list_all_iff)

lemma ref_lists_loop_done:
  "\<not> lc < rll \<Longrightarrow> ref_lists_loop buf kl rll lastp lc s acc = Some (Inr acc)"
  by (subst ref_lists_loop.simps) simp

lemma ref_lists_loop_step:
  assumes "lc < rll" and "\<not> lastp < s"
    and "(case memchr buf s TAB (lastp - s) of
            None \<Rightarrow> if lc + 1 \<noteq> rll then Inl (AssertionError MissingRefList)
                    else Inr (lastp, lastp)
          | Some temp_ptr \<Rightarrow> Inr (temp_ptr, temp_ptr + 1)) = Inr (ref_ptr, next_start)"
    and "ref_list_loop buf kl ref_ptr s [] = Some (Inr rl)"
  shows "ref_lists_loop buf kl rll lastp lc s acc =
         ref_lists_loop buf kl rll lastp (lc + 1) next_start (acc @ [rl])"
  by (subst ref_lists_loop.simps) (simp add: assms)

lemma ref_lists_loop_lists:
  assumes "0 < kl" and "refs \<noteq> []" and "length refs = rll - lc"
    and "list_all (list_all (ref_key kl)) refs"
    and "drop s buf = refs_text refs @ rest" and "lastp = s + length (refs_text refs)"
  shows "ref_lists_loop buf kl rll lastp lc s acc = Some (Inr (acc @ refs))"
  using assms(2) assms(3) assms(4) assms(5) assms(6)
proof (induction refs arbitrary: lc s acc)
  case Nil
  then show ?case by simp
next
  case (Cons rl refs)
  have lc: "lc < rll" using Cons.prems(2) by simp
  have wf: "list_all (ref_key kl) rl" using Cons.prems(3) by simp
  note nt = ref_list_text_no_tab[OF assms(1) wf]
  let ?t = "ref_list_text rl"
  show ?case
  proof (cases "refs = []")
    case True
    then have tx: "refs_text (rl # refs) = ?t" by (simp add: refs_text_def)
    have d: "drop s buf = ?t @ rest" using Cons.prems(4) tx by simp
    have lp: "lastp = s + length ?t" using Cons.prems(5) tx by simp
    have last_list: "lc + 1 = rll" using Cons.prems(2) True by simp
    have "memchr buf s TAB (lastp - s) = None"
      using memchr_none[OF d nt, of "lastp - s"] lp by simp
    then have m: "(case memchr buf s TAB (lastp - s) of
            None \<Rightarrow> if lc + 1 \<noteq> rll then Inl (AssertionError MissingRefList)
                    else Inr (lastp, lastp)
          | Some temp_ptr \<Rightarrow> Inr (temp_ptr, temp_ptr + 1)) = Inr (lastp, lastp)"
      using last_list by simp
    have rlp: "ref_list_loop buf kl lastp s [] = Some (Inr rl)"
      using ref_list_loop_keys[OF assms(1) wf d lp, of "[]"] by simp
    have "ref_lists_loop buf kl rll lastp lc s acc =
          ref_lists_loop buf kl rll lastp (lc + 1) lastp (acc @ [rl])"
      using ref_lists_loop_step[OF lc _ m rlp] lp by simp
    then show ?thesis using True last_list by (simp add: ref_lists_loop_done)
  next
    case False
    then have tx: "refs_text (rl # refs) = ?t @ TAB # refs_text refs"
      by (simp add: refs_text_def join_Cons)
    have d: "drop s buf = ?t @ TAB # (refs_text refs @ rest)" using Cons.prems(4) tx by simp
    have lp: "lastp = s + length ?t + 1 + length (refs_text refs)"
      using Cons.prems(5) tx by simp
    have "memchr buf s TAB (lastp - s) = Some (s + length ?t)"
      using memchr_found[OF d nt, of "lastp - s"] lp by simp
    then have m: "(case memchr buf s TAB (lastp - s) of
            None \<Rightarrow> if lc + 1 \<noteq> rll then Inl (AssertionError MissingRefList)
                    else Inr (lastp, lastp)
          | Some temp_ptr \<Rightarrow> Inr (temp_ptr, temp_ptr + 1)) =
          Inr (s + length ?t, s + length ?t + 1)"
      by simp
    have d0: "drop s buf = ?t @ (TAB # (refs_text refs @ rest))" using d by simp
    have rlp: "ref_list_loop buf kl (s + length ?t) s [] = Some (Inr rl)"
      using ref_list_loop_keys[OF assms(1) wf d0, of "s + length ?t" "[]"] by simp
    have step: "ref_lists_loop buf kl rll lastp lc s acc =
          ref_lists_loop buf kl rll lastp (lc + 1) (s + length ?t + 1) (acc @ [rl])"
      using ref_lists_loop_step[OF lc _ m rlp] lp by simp
    have d': "drop (s + length ?t + 1) buf = refs_text refs @ rest"
      using drop_add_of_append[OF d]
        drop_Suc_of_Cons[of "s + length ?t" buf TAB "refs_text refs @ rest"]
      by simp
    have len: "length refs = rll - (lc + 1)" using Cons.prems(2) by simp
    have "ref_lists_loop buf kl rll lastp (lc + 1) (s + length ?t + 1) (acc @ [rl]) =
          Some (Inr ((acc @ [rl]) @ refs))"
      using Cons.IH[OF False len _ d'] Cons.prems(3) lp by simp
    then show ?thesis using step by simp
  qed
qed

lemma key_text_no_lf:
  "list_all plain_bytes key \<Longrightarrow> LF \<notin> set (key_text key)"
  unfolding key_text_def
  by (intro sep_notin_join) (auto simp: list_all_iff plain_bytes_def)

lemma refs_text_no_lf:
  assumes "list_all (list_all (ref_key kl)) refs"
  shows "LF \<notin> set (refs_text refs)"
proof -
  have k: "LF \<notin> set (key_text k)" if "ref_key kl k" for k
    unfolding key_text_def using that
    by (intro sep_notin_join) (auto simp: ref_key_def list_all_iff ref_bit_def)
  have l: "LF \<notin> set (ref_list_text rl)" if "list_all (ref_key kl) rl" for rl
    unfolding ref_list_text_def using that k
    by (intro sep_notin_join) (auto simp: list_all_iff)
  show ?thesis
    unfolding refs_text_def using assms l
    by (intro sep_notin_join) (auto simp: list_all_iff)
qed

lemma process_line_entry:
  assumes kl: "0 < kl" and wf: "wf_entry kl rll e" and hf: "header_found p"
    and pk: "key_length p = kl" and pr: "ref_list_length p = rll"
    and d: "drop (cur_str p) buf = entry_line e @ rest" and en: "end_str p = length buf"
  shows "process_line buf p =
     Some (Inr (p\<lparr>cur_str := cur_str p + length (entry_line e), keys := keys p @ [e]\<rparr>))"
proof -
  obtain key val refs where e: "e = (key, val, refs)" by (cases e) auto
  define c where "c = cur_str p"
  define kt where "kt = key_text key"
  define rt where "rt = refs_text refs"
  define lastp where "lastp = c + length kt + 1 + length rt + 1 + length val"
  define start1 where "start1 = c + length kt + 1"
  define temp_ptr where "temp_ptr = start1 + length rt"
  have w: "length key = kl" "list_all plain_bytes key" "plain_bytes val" "length refs = rll"
    "list_all (list_all (ref_key kl)) refs"
    using wf e by (simp_all add: wf_entry_def)
  have line: "entry_line e = kt @ NUL # rt @ NUL # val @ [LF]"
    using e by (simp add: entry_line_def kt_def rt_def)
  have dl: "drop c buf = (kt @ NUL # rt @ NUL # val) @ LF # rest"
    using d line by (simp add: c_def)
  have nolf: "LF \<notin> set (kt @ NUL # rt @ NUL # val)"
    using key_text_no_lf[OF w(2)] refs_text_no_lf[OF w(5)] w(3)
    by (simp add: kt_def rt_def plain_bytes_def)
  have "length buf - c = length (drop c buf)" by simp
  then have room: "length (kt @ NUL # rt @ NUL # val) < end_str p - c"
    using dl en by simp
  have m1: "memchr buf c LF (end_str p - c) = Some lastp"
    using memchr_found[OF dl nolf room] by (simp add: lastp_def)
  have ne: "lastp \<noteq> c" "\<not> lastp < c" by (simp_all add: lastp_def)
  have key_ne: "key \<noteq> []" using w(1) kl by auto
  have nonul: "\<forall>seg \<in> set key. NUL \<notin> set seg"
    using w(2) by (auto simp: list_all_iff plain_bytes_def)
  have dk: "drop c buf = join NUL key @ (NUL # rt @ NUL # val @ LF # rest)"
    using dl by (simp add: kt_def key_text_def)
  have ek: "extract_key buf kl lastp c = Inr (key, start1)"
    unfolding extract_key_def
    using extract_key_loop_key[of key kl 0 c buf "NUL # rt @ NUL # val @ LF # rest" lastp "[]"]
      key_ne w(1) nonul dk
    by (simp add: lastp_def start1_def kt_def key_text_def)
  have d1: "drop start1 buf = rt @ NUL # val @ (LF # rest)"
    using drop_add_of_append[of c buf kt "NUL # rt @ NUL # val @ LF # rest"] dl
      drop_Suc_of_Cons[of "c + length kt" buf NUL "rt @ NUL # val @ LF # rest"]
    by (simp add: start1_def)
  have n: "int lastp - int start1 = int (length rt + 1 + length val)"
    by (simp add: lastp_def start1_def)
  have nv: "NUL \<notin> set val" using w(3) by (simp add: plain_bytes_def)
  have "memrchr_loop buf start1 NUL (length rt + 1 + length val) = Some temp_ptr"
    using memrchr_loop_found[OF d1 nv] by (simp only: temp_ptr_def)
  then have mr: "leaf_my_memrchr buf start1 NUL (int lastp - int start1) = Some temp_ptr"
    unfolding leaf_my_memrchr_def n by (simp only: nat_int) simp
  have sl: "int lastp - int temp_ptr - 1 = int (length val)"
    by (simp add: lastp_def start1_def temp_ptr_def)
  have dv: "drop (temp_ptr + 1) buf = val @ (LF # rest)"
    using drop_add_of_append[OF d1]
      drop_Suc_of_Cons[of "start1 + length rt" buf NUL "val @ LF # rest"]
    by (simp add: temp_ptr_def)
  have v: "slice buf (temp_ptr + 1) (length val) = val"
    using dv by (rule slice_of_append)
  have v1: "safe_interned_string_from_size buf (temp_ptr + 1) (int (length val)) = Inr val"
    using v by (simp add: safe_interned_string_from_size_def safe_string_from_size_def)
  have v2: "safe_string_from_size buf (temp_ptr + 1) (int (length val)) = Inr val"
    using v by (simp add: safe_string_from_size_def)
  have nxt: "lastp + 1 = cur_str p + length (entry_line e)"
    by (simp add: lastp_def line c_def)
  have nxt': "Suc lastp = cur_str p + length (entry_line e)"
    using nxt by simp
  show ?thesis
  proof (cases "rll = 0")
    case True
    then have r: "refs = []" using w(4) by simp
    then have tp: "temp_ptr = start1" by (simp add: temp_ptr_def rt_def refs_text_def)
    show ?thesis
      unfolding process_line_def
      using m1 ne hf ek mr[unfolded tp] sl[unfolded tp] v1[unfolded tp] v2[unfolded tp] True
        nxt'[unfolded c_def[symmetric]]
      by (simp add: Let_def c_def[symmetric] pk pr r e)
  next
    case False
    then have rne: "refs \<noteq> []" using w(4) by auto
    have rl: "ref_lists_loop buf kl rll temp_ptr 0 start1 [] = Some (Inr refs)"
      using ref_lists_loop_lists[OF kl rne _ w(5), of rll 0 start1 buf "NUL # val @ (LF # rest)" temp_ptr "[]"]
        w(4) d1
      by (simp add: rt_def temp_ptr_def)
    show ?thesis
      unfolding process_line_def
      using m1 ne hf ek mr sl v1 v2 False rl nxt'[unfolded c_def[symmetric]]
      by (simp add: Let_def c_def[symmetric] pk pr e)
  qed
qed

lemma process_line_header:
  assumes hf: "\<not> header_found p"
    and d: "drop (cur_str p) buf = ''type=leaf'' @ LF # rest" and en: "end_str p = length buf"
  shows "process_line buf p = Some (Inr (p\<lparr>cur_str := cur_str p + 10, header_found := True\<rparr>))"
proof -
  define c where "c = cur_str p"
  have dl: "drop c buf = ''type=leaf'' @ LF # rest" using d by (simp add: c_def)
  have "length buf - c = length (drop c buf)" by simp
  then have room: "length ''type=leaf'' < end_str p - c"
    unfolding dl en by simp
  have m1: "memchr buf c LF (end_str p - c) = Some (c + 9)"
    using memchr_found[OF dl _ room] by simp
  have s: "strncmp ''type=leaf'' (drop c buf) 9 = 0"
    unfolding dl by (simp add: eval_nat_numeral Let_def)
  show ?thesis
    unfolding process_line_def
    using m1 hf s
    by (simp add: Let_def c_def[symmetric])
qed

lemma entry_line_nonempty: "entry_line e \<noteq> []"
  by (cases e) (simp add: entry_line_def)

lemma leaf_loop_entries:
  assumes "0 < kl" and "list_all (wf_entry kl rll) es" and "header_found p"
    and "key_length p = kl" and "ref_list_length p = rll"
    and "drop (cur_str p) buf = concat (map entry_line es)"
    and "end_str p = length buf" and "cur_str p \<le> length buf"
  shows "leaf_loop buf p = Some (Inr (p\<lparr>cur_str := length buf, keys := keys p @ es\<rparr>))"
  using assms(2-)
proof (induction es arbitrary: p)
  case Nil
  then have "cur_str p = length buf" by simp
  then show ?case
    using Nil.prems(6) by (subst leaf_loop.simps) simp
next
  case (Cons e es)
  define p1 where "p1 = p\<lparr>cur_str := cur_str p + length (entry_line e), keys := keys p @ [e]\<rparr>"
  have wf: "wf_entry kl rll e" using Cons.prems(1) by simp
  have d: "drop (cur_str p) buf = entry_line e @ concat (map entry_line es)"
    using Cons.prems(5) by simp
  have pl: "process_line buf p = Some (Inr p1)"
    unfolding p1_def
    using process_line_entry[OF assms(1) wf Cons.prems(2) Cons.prems(3) Cons.prems(4) d Cons.prems(6)] .
  have "length buf - cur_str p = length (drop (cur_str p) buf)" by simp
  then have len: "length buf - cur_str p = length (entry_line e) + length (concat (map entry_line es))"
    unfolding d by simp
  have lt: "cur_str p < end_str p"
    using len entry_line_nonempty[of e] Cons.prems(6) by (cases "entry_line e") auto
  have d1: "drop (cur_str p1) buf = concat (map entry_line es)"
    using drop_add_of_append[OF d] by (simp add: p1_def)
  have b1: "cur_str p1 \<le> length buf" using len Cons.prems(7) by (simp add: p1_def)
  have "leaf_loop buf p1 = Some (Inr (p1\<lparr>cur_str := length buf, keys := keys p1 @ es\<rparr>))"
    using Cons.IH[of p1] Cons.prems d1 b1 by (simp add: p1_def)
  then have "leaf_loop buf p = Some (Inr (p1\<lparr>cur_str := length buf, keys := keys p1 @ es\<rparr>))"
    using lt pl by (subst leaf_loop.simps) simp
  then show ?case by (simp add: p1_def)
qed

lemma parse_leaf_lines_entries:
  assumes "0 < kl" and "list_all (wf_entry kl rll) es"
    and "in_c_int (int kl)" and "in_c_int (int rll)"
  shows "parse_leaf_lines (PyStr (''type=leaf'' @ [LF] @ concat (map entry_line es))) kl rll =
         Some (Inr es)"
proof -
  define buf where "buf = ''type=leaf'' @ [LF] @ concat (map entry_line es)"
  define q where "q = \<lparr>bytes = PyStr buf, key_length = kl, ref_list_length = rll,
            keys = [], cur_str = 0, end_str = 0, header_found = False\<rparr>"
  have new: "new_leaf_parser (PyStr buf) kl rll = Inr q"
    using assms(3) assms(4) by (simp add: new_leaf_parser_def c_int_def q_def)
  define p0 where "p0 = q\<lparr>cur_str := 0, end_str := length buf\<rparr>"
  define p1 where "p1 = p0\<lparr>cur_str := 10, header_found := True\<rparr>"
  have f0: "cur_str p0 = 0" "end_str p0 = length buf" "\<not> header_found p0"
    by (simp_all add: p0_def q_def)
  have d0: "drop (cur_str p0) buf = ''type=leaf'' @ LF # concat (map entry_line es)"
    by (simp add: f0 buf_def)
  have pl: "process_line buf p0 = Some (Inr p1)"
    using process_line_header[OF f0(3) d0 f0(2)] by (simp add: p1_def f0)
  have lt: "cur_str p0 < end_str p0" by (simp add: f0 buf_def)
  have f1: "header_found p1" "key_length p1 = kl" "ref_list_length p1 = rll"
    "end_str p1 = length buf" "cur_str p1 = 10" "keys p1 = []"
    by (simp_all add: p1_def p0_def q_def)
  have d1: "drop (cur_str p1) buf = concat (map entry_line es)"
    by (simp add: f1 buf_def)
  have b1: "cur_str p1 \<le> length buf" by (simp add: f1 buf_def)
  have "leaf_loop buf p1 = Some (Inr (p1\<lparr>cur_str := length buf, keys := keys p1 @ es\<rparr>))"
    using leaf_loop_entries[OF assms(1) assms(2) f1(1) f1(2) f1(3) d1 f1(4) b1] .
  then have "leaf_loop buf p0 = Some (Inr (p1\<lparr>cur_str := length buf, keys := es\<rparr>))"
    using lt pl by (subst leaf_loop.simps) (simp add: f1)
  moreover have "bytes q = PyStr buf" by (simp add: q_def)
  ultimately show ?thesis
    unfolding parse_leaf_lines_def buf_def[symmetric] new
    by (simp add: parse_def p0_def f1)
qed

lemma for_each_map:
  "(\<And>x. x \<in> set xs \<Longrightarrow> f x = Inr (g x)) \<Longrightarrow> for_each f xs = Inr (map g xs)"
  by (induction xs) simp_all

lemma length_join:
  "length (join sep xs) = (length xs - 1) + sum_list (map length xs)"
  by (induction sep xs rule: join.induct) simp_all

lemma py_join_key: "py_join NUL (py_key k) = Inr (key_text k)"
proof -
  have "for_each str_bytes (map PyStr k) = Inr (map bit_bytes (map PyStr k))"
    by (rule for_each_map) auto
  then show ?thesis
    by (simp add: py_join_def py_key_def key_text_def join_loop_join comp_def)
qed

lemma reference_len_key: "reference_len (py_key k) = Inr (length (key_text k))"
proof -
  have "for_each str_bytes (map PyStr k) = Inr (map bit_bytes (map PyStr k))"
    by (rule for_each_map) auto
  then show ?thesis
    by (cases "k = []")
       (simp_all add: reference_len_def py_key_def key_text_def length_join comp_def)
qed

lemma ref_list_len_keys:
  "ref_list_len (PyTuple (map py_key rl)) = Inr (length (ref_list_text rl))"
proof -
  have "for_each reference_len (map py_key rl) = Inr (map (\<lambda>k. length (key_text k)) rl)"
    by (induction rl) (simp_all add: reference_len_key)
  then show ?thesis
    by (cases "rl = []")
       (simp_all add: ref_list_len_def ref_list_text_def length_join comp_def)
qed

lemma ref_lists_len_refs:
  "ref_lists_len (py_refs refs) = Inr (length (refs_text refs))"
proof -
  have "for_each ref_list_len (map (\<lambda>rl. PyTuple (map py_key rl)) refs) =
        Inr (map (\<lambda>rl. length (ref_list_text rl)) refs)"
    by (induction refs) (simp_all add: ref_list_len_keys)
  then show ?thesis
    by (cases "refs = []")
       (simp_all add: ref_lists_len_def py_refs_def refs_text_def length_join comp_def)
qed

lemma write_ref_lists_refs: "write_ref_lists (py_refs refs) = refs_text refs"
proof -
  have k: "write_reference (py_key k) = key_text k" for k
    by (simp add: write_reference_def py_key_def key_text_def join_loop_join comp_def)
  have l: "write_ref_list (PyTuple (map py_key rl)) = ref_list_text rl" for rl
    by (simp add: write_ref_list_def ref_list_text_def join_loop_join comp_def k)
  show ?thesis
    by (simp add: write_ref_lists_def py_refs_def refs_text_def join_loop_join comp_def l)
qed

lemma flatten_node_entry:
  assumes "length (snd (snd e)) = rll"
  shows "flatten_node (node_of idx rll e) (0 < rll) = Inr (key_text (fst e), entry_line e)"
proof -
  obtain key val refs where e: "e = (key, val, refs)" by (cases e) auto
  show ?thesis
  proof (cases "0 < rll")
    case True
    then show ?thesis
      by (simp add: flatten_node_def node_of_def e Let_def py_join_key ref_lists_len_refs
          write_ref_lists_refs entry_line_def)
  next
    case False
    then have "refs = []" using assms e by simp
    then show ?thesis
      using False
      by (simp add: flatten_node_def node_of_def e Let_def py_join_key entry_line_def
          refs_text_def)
  qed
qed

lemma for_each_flatten_node:
  assumes "list_all (wf_entry kl rll) es"
  shows "for_each (\<lambda>e. flatten_node (node_of idx rll e) (0 < rll)) es =
         Inr (map (\<lambda>e. (key_text (fst e), entry_line e)) es)"
proof (rule for_each_map)
  fix e assume "e \<in> set es"
  then have "wf_entry kl rll e" using assms by (simp add: list_all_iff)
  then have "length (snd (snd e)) = rll" by (cases e) (simp add: wf_entry_def)
  then show "flatten_node (node_of idx rll e) (0 < rll) = Inr (key_text (fst e), entry_line e)"
    by (rule flatten_node_entry)
qed

text \<open>
  C3, amended. Let \<open>key_length > 0\<close> and \<open>ref_list_length\<close> be in the range of a C \<open>int\<close>.
  Take entries whose keys have \<open>key_length\<close> items holding no NUL and no line feed,
  whose values hold no NUL and no line feed, and which have \<open>ref_list_length\<close> reference
  lists of keys of \<open>key_length\<close> items holding no NUL, line feed, tab or carriage return,
  a reference key of one item not being the empty string. Then \<open>_flatten_node\<close> accepts
  the node of every entry, and \<open>_parse_leaf_lines\<close> reads the header line followed by the
  flattened lines back as exactly these entries, in order; with no reference lists
  every entry read has the empty tuple of reference lists.
\<close>

theorem leaf_roundtrip:
  assumes "0 < kl" and "list_all (wf_entry kl rll) es"
    and "in_c_int (int kl)" and "in_c_int (int rll)"
  shows "\<exists>flat. for_each (\<lambda>e. flatten_node (node_of idx rll e) (0 < rll)) es = Inr flat \<and>
           parse_leaf_lines (PyStr (''type=leaf'' @ [LF] @ concat (map snd flat))) kl rll =
             Some (Inr es) \<and>
           (if rll = 0 then list_all (\<lambda>e. snd (snd e) = []) es else True)"
proof -
  let ?flat = "map (\<lambda>e. (key_text (fst e), entry_line e)) es"
  have a: "for_each (\<lambda>e. flatten_node (node_of idx rll e) (0 < rll)) es = Inr ?flat"
    using assms(2) by (rule for_each_flatten_node)
  have m: "map snd ?flat = map entry_line es" by (simp add: comp_def)
  have b: "parse_leaf_lines (PyStr (''type=leaf'' @ [LF] @ concat (map snd ?flat))) kl rll =
      Some (Inr es)"
    unfolding m using assms by (rule parse_leaf_lines_entries)
  have c: "if rll = 0 then list_all (\<lambda>e. snd (snd e) = []) es else True"
    using assms(2) by (auto simp: list_all_iff wf_entry_def)
  show ?thesis using a b c by blast
qed

theorem leaf_roundtrip_witness:
  "parse_leaf_lines
     (PyStr (''type=leaf'' @ [LF] @ ''k1'' @ [NUL] @ ''k2'' @ [NUL] @ ''a'' @ [NUL] @ ''b'' @ [CR]
             @ ''c'' @ [NUL] @ ''d'' @ [TAB] @ [NUL] @ ''v 0 0'' @ [LF])) 2 2 =
   Some (Inr [([''k1'', ''k2''], ''v 0 0'', [[[''a'', ''b''], [''c'', ''d'']], []])])"
proof -
  let ?es = "[([''k1'', ''k2''], ''v 0 0'', [[[''a'', ''b''], [''c'', ''d'']], []])]"
  have wf: "list_all (wf_entry 2 2) ?es"
    by (simp add: wf_entry_def plain_bytes_def ref_key_def ref_bit_def)
  have rg: "in_c_int (int 2)" by (simp add: in_c_int_def)
  have fl: "for_each (\<lambda>e. flatten_node (node_of PyNone 2 e) (0 < (2::nat))) ?es =
      Inr [(''k1'' @ [NUL] @ ''k2'',
            ''k1'' @ [NUL] @ ''k2'' @ [NUL] @ ''a'' @ [NUL] @ ''b'' @ [CR]
             @ ''c'' @ [NUL] @ ''d'' @ [TAB] @ [NUL] @ ''v 0 0'' @ [LF])]"
    by (simp add: flatten_node_def node_of_def py_key_def py_refs_def py_join_def Let_def
        ref_lists_len_def ref_list_len_def reference_len_def write_ref_lists_def
        write_ref_list_def write_reference_def)
  obtain flat where
    f: "for_each (\<lambda>e. flatten_node (node_of PyNone 2 e) (0 < (2::nat))) ?es = Inr flat"
    and p: "parse_leaf_lines (PyStr (''type=leaf'' @ [LF] @ concat (map snd flat))) 2 2 =
             Some (Inr ?es)"
    using leaf_roundtrip[of 2 2 ?es PyNone] wf rg by auto
  from f fl have "flat = [(''k1'' @ [NUL] @ ''k2'',
            ''k1'' @ [NUL] @ ''k2'' @ [NUL] @ ''a'' @ [NUL] @ ''b'' @ [CR]
             @ ''c'' @ [NUL] @ ''d'' @ [TAB] @ [NUL] @ ''v 0 0'' @ [LF])]"
    by simp
  then show ?thesis using p by simp
qed

text \<open>
  C3, as stated, fails. \<open>_flatten_node\<close> copies the bytes of keys, values and references
  as they are, and the parser cuts lines at line feeds, fields at NULs, reference lists
  at tabs and reference keys at carriage returns. In turn: a value with a line feed; a
  value with a NUL; a key item with a NUL; a key item with a line feed; a reference
  item with a tab, with a carriage return, with a NUL, with a line feed; a reference
  key that is one empty string; a key of no items. Each node is flattened, and the
  header followed by its line is parsed to an exception or to another entry. The last
  two lines are a \<open>key_length\<close> and a \<open>ref_list_length\<close> outside the range of a C \<open>int\<close>,
  for which parsing the header alone raises \<open>OverflowError\<close>.
\<close>

theorem leaf_roundtrip_counterexample:
  "flatten_node (node_of PyNone 0 ([''k''], ''a'' @ [LF] @ ''b'', [])) False =
     Inr (''k'', ''k'' @ [NUL, NUL] @ ''a'' @ [LF] @ ''b'' @ [LF]) \<and>
   parse_leaf_lines (PyStr (''type=leaf'' @ [LF] @ ''k'' @ [NUL, NUL] @ ''a'' @ [LF] @ ''b'' @ [LF])) 1 0 =
     Some (Inl (AssertionError NoValueArea)) \<and>
   flatten_node (node_of PyNone 0 ([''k''], ''a'' @ [NUL] @ ''b'', [])) False =
     Inr (''k'', ''k'' @ [NUL, NUL] @ ''a'' @ [NUL] @ ''b'' @ [LF]) \<and>
   parse_leaf_lines (PyStr (''type=leaf'' @ [LF] @ ''k'' @ [NUL, NUL] @ ''a'' @ [NUL] @ ''b'' @ [LF])) 1 0 =
     Some (Inl (AssertionError UnexpectedRefData)) \<and>
   flatten_node (node_of PyNone 0 ([''a'' @ [NUL] @ ''b''], ''v'', [])) False =
     Inr (''a'' @ [NUL] @ ''b'', ''a'' @ [NUL] @ ''b'' @ [NUL, NUL] @ ''v'' @ [LF]) \<and>
   parse_leaf_lines (PyStr (''type=leaf'' @ [LF] @ ''a'' @ [NUL] @ ''b'' @ [NUL, NUL] @ ''v'' @ [LF])) 1 0 =
     Some (Inl (AssertionError UnexpectedRefData)) \<and>
   flatten_node (node_of PyNone 0 ([''a'' @ [LF] @ ''b''], ''v'', [])) False =
     Inr (''a'' @ [LF] @ ''b'', ''a'' @ [LF] @ ''b'' @ [NUL, NUL] @ ''v'' @ [LF]) \<and>
   parse_leaf_lines (PyStr (''type=leaf'' @ [LF] @ ''a'' @ [LF] @ ''b'' @ [NUL, NUL] @ ''v'' @ [LF])) 1 0 =
     Some (Inl (AssertionError NoValueArea)) \<and>
   flatten_node (node_of PyNone 1 ([''k''], ''v'', [[[''a'' @ [TAB] @ ''b'']]])) True =
     Inr (''k'', ''k'' @ [NUL] @ ''a'' @ [TAB] @ ''b'' @ [NUL] @ ''v'' @ [LF]) \<and>
   parse_leaf_lines (PyStr (''type=leaf'' @ [LF] @ ''k'' @ [NUL] @ ''a'' @ [TAB] @ ''b'' @ [NUL] @ ''v'' @ [LF])) 1 1 =
     Some (Inr [([''k''], ''v'', [[[''a'']]])]) \<and>
   flatten_node (node_of PyNone 1 ([''k''], ''v'', [[[''a'' @ [CR] @ ''b'']]])) True =
     Inr (''k'', ''k'' @ [NUL] @ ''a'' @ [CR] @ ''b'' @ [NUL] @ ''v'' @ [LF]) \<and>
   parse_leaf_lines (PyStr (''type=leaf'' @ [LF] @ ''k'' @ [NUL] @ ''a'' @ [CR] @ ''b'' @ [NUL] @ ''v'' @ [LF])) 1 1 =
     Some (Inr [([''k''], ''v'', [[[''a''], [''b'']]])]) \<and>
   flatten_node (node_of PyNone 1 ([''k''], ''v'', [[[''a'' @ [NUL] @ ''b'']]])) True =
     Inr (''k'', ''k'' @ [NUL] @ ''a'' @ [NUL] @ ''b'' @ [NUL] @ ''v'' @ [LF]) \<and>
   parse_leaf_lines (PyStr (''type=leaf'' @ [LF] @ ''k'' @ [NUL] @ ''a'' @ [NUL] @ ''b'' @ [NUL] @ ''v'' @ [LF])) 1 1 =
     Some (Inr [([''k''], ''v'', [[[''a''], [''b'']]])]) \<and>
   flatten_node (node_of PyNone 1 ([''k''], ''v'', [[[''a'' @ [LF] @ ''b'']]])) True =
     Inr (''k'', ''k'' @ [NUL] @ ''a'' @ [LF] @ ''b'' @ [NUL] @ ''v'' @ [LF]) \<and>
   parse_leaf_lines (PyStr (''type=leaf'' @ [LF] @ ''k'' @ [NUL] @ ''a'' @ [LF] @ ''b'' @ [NUL] @ ''v'' @ [LF])) 1 1 =
     Some (Inl (AssertionError NoValueArea)) \<and>
   flatten_node (node_of PyNone 1 ([''k''], ''v'', [[[[]]]])) True =
     Inr (''k'', ''k'' @ [NUL, NUL] @ ''v'' @ [LF]) \<and>
   parse_leaf_lines (PyStr (''type=leaf'' @ [LF] @ ''k'' @ [NUL, NUL] @ ''v'' @ [LF])) 1 1 =
     Some (Inr [([''k''], ''v'', [[]])]) \<and>
   flatten_node (node_of PyNone 0 ([], ''v'', [])) False =
     Inr ([], [NUL, NUL] @ ''v'' @ [LF]) \<and>
   parse_leaf_lines (PyStr (''type=leaf'' @ [LF] @ [NUL, NUL] @ ''v'' @ [LF])) 0 0 =
     Some (Inl (AssertionError UnexpectedRefData)) \<and>
   parse_leaf_lines (PyStr (''type=leaf'' @ [LF])) 2147483648 0 = Some (Inl OverflowError) \<and>
   parse_leaf_lines (PyStr (''type=leaf'' @ [LF])) 1 2147483648 = Some (Inl OverflowError)"
proof -
  have v_lf: "flatten_node (node_of PyNone 0 ([''k''], ''a'' @ [LF] @ ''b'', [])) False =
        Inr (''k'', ''k'' @ [NUL, NUL] @ ''a'' @ [LF] @ ''b'' @ [LF]) \<and>
   parse_leaf_lines (PyStr (''type=leaf'' @ [LF] @ ''k'' @ [NUL, NUL] @ ''a'' @ [LF] @ ''b'' @ [LF])) 1 0 =
        Some (Inl (AssertionError NoValueArea))"
    by code_simp
  have v_nul: "flatten_node (node_of PyNone 0 ([''k''], ''a'' @ [NUL] @ ''b'', [])) False =
        Inr (''k'', ''k'' @ [NUL, NUL] @ ''a'' @ [NUL] @ ''b'' @ [LF]) \<and>
   parse_leaf_lines (PyStr (''type=leaf'' @ [LF] @ ''k'' @ [NUL, NUL] @ ''a'' @ [NUL] @ ''b'' @ [LF])) 1 0 =
        Some (Inl (AssertionError UnexpectedRefData))"
    by code_simp
  have k_nul: "flatten_node (node_of PyNone 0 ([''a'' @ [NUL] @ ''b''], ''v'', [])) False =
        Inr (''a'' @ [NUL] @ ''b'', ''a'' @ [NUL] @ ''b'' @ [NUL, NUL] @ ''v'' @ [LF]) \<and>
   parse_leaf_lines (PyStr (''type=leaf'' @ [LF] @ ''a'' @ [NUL] @ ''b'' @ [NUL, NUL] @ ''v'' @ [LF])) 1 0 =
        Some (Inl (AssertionError UnexpectedRefData))"
    by code_simp
  have k_lf: "flatten_node (node_of PyNone 0 ([''a'' @ [LF] @ ''b''], ''v'', [])) False =
        Inr (''a'' @ [LF] @ ''b'', ''a'' @ [LF] @ ''b'' @ [NUL, NUL] @ ''v'' @ [LF]) \<and>
   parse_leaf_lines (PyStr (''type=leaf'' @ [LF] @ ''a'' @ [LF] @ ''b'' @ [NUL, NUL] @ ''v'' @ [LF])) 1 0 =
        Some (Inl (AssertionError NoValueArea))"
    by code_simp
  have r_tab: "flatten_node (node_of PyNone 1 ([''k''], ''v'', [[[''a'' @ [TAB] @ ''b'']]])) True =
        Inr (''k'', ''k'' @ [NUL] @ ''a'' @ [TAB] @ ''b'' @ [NUL] @ ''v'' @ [LF]) \<and>
   parse_leaf_lines (PyStr (''type=leaf'' @ [LF] @ ''k'' @ [NUL] @ ''a'' @ [TAB] @ ''b'' @ [NUL] @ ''v'' @ [LF])) 1 1 =
        Some (Inr [([''k''], ''v'', [[[''a'']]])])"
    by code_simp
  have r_cr: "flatten_node (node_of PyNone 1 ([''k''], ''v'', [[[''a'' @ [CR] @ ''b'']]])) True =
        Inr (''k'', ''k'' @ [NUL] @ ''a'' @ [CR] @ ''b'' @ [NUL] @ ''v'' @ [LF]) \<and>
   parse_leaf_lines (PyStr (''type=leaf'' @ [LF] @ ''k'' @ [NUL] @ ''a'' @ [CR] @ ''b'' @ [NUL] @ ''v'' @ [LF])) 1 1 =
        Some (Inr [([''k''], ''v'', [[[''a''], [''b'']]])])"
    by code_simp
  have r_nul: "flatten_node (node_of PyNone 1 ([''k''], ''v'', [[[''a'' @ [NUL] @ ''b'']]])) True =
        Inr (''k'', ''k'' @ [NUL] @ ''a'' @ [NUL] @ ''b'' @ [NUL] @ ''v'' @ [LF]) \<and>
   parse_leaf_lines (PyStr (''type=leaf'' @ [LF] @ ''k'' @ [NUL] @ ''a'' @ [NUL] @ ''b'' @ [NUL] @ ''v'' @ [LF])) 1 1 =
        Some (Inr [([''k''], ''v'', [[[''a''], [''b'']]])])"
    by code_simp
  have r_lf: "flatten_node (node_of PyNone 1 ([''k''], ''v'', [[[''a'' @ [LF] @ ''b'']]])) True =
        Inr (''k'', ''k'' @ [NUL] @ ''a'' @ [LF] @ ''b'' @ [NUL] @ ''v'' @ [LF]) \<and>
   parse_leaf_lines (PyStr (''type=leaf'' @ [LF] @ ''k'' @ [NUL] @ ''a'' @ [LF] @ ''b'' @ [NUL] @ ''v'' @ [LF])) 1 1 =
        Some (Inl (AssertionError NoValueArea))"
    by code_simp
  have r_empty: "flatten_node (node_of PyNone 1 ([''k''], ''v'', [[[[]]]])) True =
        Inr (''k'', ''k'' @ [NUL, NUL] @ ''v'' @ [LF]) \<and>
   parse_leaf_lines (PyStr (''type=leaf'' @ [LF] @ ''k'' @ [NUL, NUL] @ ''v'' @ [LF])) 1 1 =
        Some (Inr [([''k''], ''v'', [[]])])"
    by code_simp
  have k_none: "flatten_node (node_of PyNone 0 ([], ''v'', [])) False =
        Inr ([], [NUL, NUL] @ ''v'' @ [LF]) \<and>
   parse_leaf_lines (PyStr (''type=leaf'' @ [LF] @ [NUL, NUL] @ ''v'' @ [LF])) 0 0 =
        Some (Inl (AssertionError UnexpectedRefData))"
    by code_simp
  have range: "parse_leaf_lines (PyStr (''type=leaf'' @ [LF])) 2147483648 0 = Some (Inl OverflowError) \<and>
   parse_leaf_lines (PyStr (''type=leaf'' @ [LF])) 1 2147483648 = Some (Inl OverflowError)"
    by (simp add: parse_leaf_lines_def new_leaf_parser_def c_int_def in_c_int_def)
  show ?thesis
    using v_lf v_nul k_nul k_lf r_tab r_cr r_nul r_lf r_empty k_none range by (intro conjI) simp_all
qed

section \<open>The record reader on a text of rows\<close>

lemma nul_fields_Cons: "nul_fields (f # fs) = f @ NUL # nul_fields fs"
  by (simp add: nul_fields_def)

lemma nul_fields_Nil: "nul_fields [] = []"
  by (simp add: nul_fields_def)

lemma nul_fields_append: "nul_fields (fs @ gs) = nul_fields fs @ nul_fields gs"
  by (simp add: nul_fields_def)

lemma get_next_field:
  assumes "end_cstr r = length (rtext r)" and "cur_cstr r = Some c"
    and d: "drop c (rtext r) = f @ NUL # rest" and nn: "NUL \<notin> set f"
  shows "get_next r = Inr ((c, length f), r\<lparr>cur_cstr := Some (c + length f + 1)\<rparr>)"
proof -
  have "length (rtext r) - c = length (drop c (rtext r))" by simp
  then have room: "length f < end_cstr r - c" unfolding d using assms(1) by simp
  have "memchr (rtext r) c NUL (end_cstr r - c) = Some (c + length f)"
    using memchr_found[OF d nn room] .
  then show ?thesis using assms(2) room by (simp add: get_next_def)
qed

lemma get_next_str_field:
  assumes "end_cstr r = length (rtext r)" and "cur_cstr r = Some c"
    and d: "drop c (rtext r) = f @ NUL # rest" and nn: "NUL \<notin> set f"
  shows "get_next_str r = Inr (f, r\<lparr>cur_cstr := Some (c + length f + 1)\<rparr>)"
  using get_next_field[OF assms] slice_of_append[OF d]
  by (simp add: get_next_str_def safe_string_from_size_def)

lemma executable_flag:
  "drop p buf = x @ NUL # rest \<Longrightarrow> NUL \<notin> set x \<Longrightarrow>
   (byte_at buf p = CHR ''y'') = (take 1 x = ''y'')"
  by (cases x) (auto dest: byte_at_drop)

lemma read_trees_fields:
  assumes "end_cstr r = length (rtext r)" and "cur_cstr r = Some c"
    and "length fs = 5 * i" and "list_all (\<lambda>f. NUL \<notin> set f) fs"
    and "drop c (rtext r) = nul_fields fs @ rest"
  shows "read_trees i r acc =
         Inr (acc @ decode_trees fs, r\<lparr>cur_cstr := Some (c + length (nul_fields fs))\<rparr>)"
  using assms
proof (induction i arbitrary: r c fs acc)
  case 0
  then have "r\<lparr>cur_cstr := Some c\<rparr> = r" by simp
  then show ?case using 0 by (simp add: nul_fields_Nil)
next
  case (Suc i)
  have "length fs = Suc (Suc (Suc (Suc (Suc (5 * i)))))" using Suc.prems(3) by simp
  then obtain m f s x info fs' where fs: "fs = m # f # s # x # info # fs'"
    and len: "length fs' = 5 * i"
    by (auto simp: length_Suc_conv)
  have nn: "NUL \<notin> set m" "NUL \<notin> set f" "NUL \<notin> set s" "NUL \<notin> set x" "NUL \<notin> set info"
    "list_all (\<lambda>f. NUL \<notin> set f) fs'"
    using Suc.prems(4) fs by simp_all
  define r1 where "r1 = r\<lparr>cur_cstr := Some (c + length m + 1)\<rparr>"
  define c2 where "c2 = c + length m + 1 + length f + 1"
  define r2 where "r2 = r\<lparr>cur_cstr := Some c2\<rparr>"
  define c3 where "c3 = c2 + length s + 1"
  define r3 where "r3 = r\<lparr>cur_cstr := Some c3\<rparr>"
  define c4 where "c4 = c3 + length x + 1"
  define r4 where "r4 = r\<lparr>cur_cstr := Some c4\<rparr>"
  define c5 where "c5 = c4 + length info + 1"
  define r5 where "r5 = r\<lparr>cur_cstr := Some c5\<rparr>"
  have d0: "drop c (rtext r) = m @ NUL # (f @ NUL # s @ NUL # x @ NUL # info @ NUL # nul_fields fs' @ rest)"
    using Suc.prems(5) fs by (simp add: nul_fields_Cons)
  have d1: "drop (c + length m + 1) (rtext r) = f @ NUL # (s @ NUL # x @ NUL # info @ NUL # nul_fields fs' @ rest)"
    using drop_add_of_append[OF d0] drop_Suc_of_Cons[of "c + length m" "rtext r" NUL] by simp
  have d2: "drop c2 (rtext r) = s @ NUL # (x @ NUL # info @ NUL # nul_fields fs' @ rest)"
    using drop_add_of_append[OF d1] drop_Suc_of_Cons[of "c + length m + 1 + length f" "rtext r" NUL]
    by (simp add: c2_def)
  have d3: "drop c3 (rtext r) = x @ NUL # (info @ NUL # nul_fields fs' @ rest)"
    using drop_add_of_append[OF d2] drop_Suc_of_Cons[of "c2 + length s" "rtext r" NUL]
    by (simp add: c3_def)
  have d4: "drop c4 (rtext r) = info @ NUL # (nul_fields fs' @ rest)"
    using drop_add_of_append[OF d3] drop_Suc_of_Cons[of "c3 + length x" "rtext r" NUL]
    by (simp add: c4_def)
  have d5: "drop c5 (rtext r) = nul_fields fs' @ rest"
    using drop_add_of_append[OF d4] drop_Suc_of_Cons[of "c4 + length info" "rtext r" NUL]
    by (simp add: c5_def)
  have g1: "get_next_str r = Inr (m, r1)"
    unfolding r1_def using Suc.prems(1) Suc.prems(2) d0 nn(1) by (rule get_next_str_field)
  have g2: "get_next_str r1 = Inr (f, r2)"
    using get_next_str_field[of r1 "c + length m + 1" f _ , OF _ _ _ nn(2)] Suc.prems(1) d1
    by (simp add: r1_def r2_def c2_def)
  have g3: "get_next r2 = Inr ((c2, length s), r3)"
    using get_next_field[of r2 c2 s, OF _ _ _ nn(3)] Suc.prems(1) d2
    by (simp add: r2_def r3_def c3_def)
  have g4: "get_next r3 = Inr ((c3, length x), r4)"
    using get_next_field[of r3 c3 x, OF _ _ _ nn(4)] Suc.prems(1) d3
    by (simp add: r3_def r4_def c4_def)
  have g5: "get_next_str r4 = Inr (info, r5)"
    using get_next_str_field[of r4 c4 info, OF _ _ _ nn(5)] Suc.prems(1) d4
    by (simp add: r4_def r5_def c5_def)
  have sz: "slice (rtext r) c2 (length s) = s" using d2 by (rule slice_of_append)
  have ex: "(byte_at (rtext r) c3 = CHR ''y'') = (take 1 x = ''y'')"
    using d3 nn(4) by (rule executable_flag)
  have step: "read_trees (Suc i) r acc =
      read_trees i r5 (acc @ [(m, f, strtoul s, take 1 x = ''y'', info)])"
    by (simp add: g1 g2 g3 g4 g5 sz ex)
  have "read_trees i r5 (acc @ [(m, f, strtoul s, take 1 x = ''y'', info)]) =
      Inr ((acc @ [(m, f, strtoul s, take 1 x = ''y'', info)]) @ decode_trees fs',
           r5\<lparr>cur_cstr := Some (c5 + length (nul_fields fs'))\<rparr>)"
    using Suc.IH[of r5 c5 fs'] Suc.prems(1) len nn(6) d5 by (simp add: r5_def)
  moreover have "c5 + length (nul_fields fs') = c + length (nul_fields fs)"
    by (simp add: fs nul_fields_Cons c5_def c4_def c3_def c2_def)
  ultimately show ?case using step by (simp add: fs r5_def)
qed

lemma strncmp_field:
  "NUL \<notin> set f \<Longrightarrow> length f = length d \<Longrightarrow>
   (strncmp (f @ NUL # rest) d (length f + 1) = 0) = (f = d)"
proof (induction f arbitrary: d)
  case Nil
  then show ?case by simp
next
  case (Cons a f)
  then obtain b d' where d: "d = b # d'" by (cases d) auto
  have "a \<noteq> b \<Longrightarrow> int (of_char a) \<noteq> int (of_char b)" by simp
  then show ?case using Cons d by (auto simp: Let_def)
qed

lemma read_entry_fields:
  assumes e: "end_cstr r = length (rtext r)" and c: "cur_cstr r = Some c"
    and wf: "wf_row num_trees fs" and d: "drop c (rtext r) = nul_fields fs @ rest"
  shows "read_entry r num_trees cur =
         Inr (decode_row fs, hd fs, hd fs \<noteq> cur,
              r\<lparr>cur_cstr := Some (c + length (nul_fields fs))\<rparr>)"
proof -
  have "length fs = Suc (Suc (Suc (5 * num_trees)))" using wf by (simp add: wf_row_def)
  then obtain dn nm fid fs' where fs: "fs = dn # nm # fid # fs'"
    and len: "length fs' = 5 * num_trees"
    by (auto simp: length_Suc_conv)
  have nn: "NUL \<notin> set dn" "NUL \<notin> set nm" "NUL \<notin> set fid" "list_all (\<lambda>f. NUL \<notin> set f) fs'"
    using wf fs by (simp_all add: wf_row_def)
  define c1 where "c1 = c + length dn + 1"
  define r1 where "r1 = r\<lparr>cur_cstr := Some c1\<rparr>"
  define c2 where "c2 = c1 + length nm + 1"
  define r2 where "r2 = r\<lparr>cur_cstr := Some c2\<rparr>"
  define c3 where "c3 = c2 + length fid + 1"
  define r3 where "r3 = r\<lparr>cur_cstr := Some c3\<rparr>"
  have d0: "drop c (rtext r) = dn @ NUL # (nm @ NUL # fid @ NUL # nul_fields fs' @ rest)"
    using d fs by (simp add: nul_fields_Cons)
  have d1: "drop c1 (rtext r) = nm @ NUL # (fid @ NUL # nul_fields fs' @ rest)"
    using drop_add_of_append[OF d0] drop_Suc_of_Cons[of "c + length dn" "rtext r" NUL]
    by (simp add: c1_def)
  have d2: "drop c2 (rtext r) = fid @ NUL # (nul_fields fs' @ rest)"
    using drop_add_of_append[OF d1] drop_Suc_of_Cons[of "c1 + length nm" "rtext r" NUL]
    by (simp add: c2_def)
  have d3: "drop c3 (rtext r) = nul_fields fs' @ rest"
    using drop_add_of_append[OF d2] drop_Suc_of_Cons[of "c2 + length fid" "rtext r" NUL]
    by (simp add: c3_def)
  have g0: "get_next r = Inr ((c, length dn), r1)"
    unfolding r1_def c1_def using e c d0 nn(1) by (rule get_next_field)
  have g1: "get_next_str r1 = Inr (nm, r2)"
    using get_next_str_field[of r1 c1 nm, OF _ _ _ nn(2)] e d1
    by (simp add: r1_def r2_def c2_def)
  have g2: "get_next_str r2 = Inr (fid, r3)"
    using get_next_str_field[of r2 c2 fid, OF _ _ _ nn(3)] e d2
    by (simp add: r2_def r3_def c3_def)
  have t: "read_trees num_trees r3 [] =
      Inr ([] @ decode_trees fs', r3\<lparr>cur_cstr := Some (c3 + length (nul_fields fs'))\<rparr>)"
    using read_trees_fields[of r3 c3 fs' num_trees rest "[]"] e len nn(4) d3
    by (simp add: r3_def)
  have c': "c3 + length (nul_fields fs') = c + length (nul_fields fs)"
    by (simp add: fs nul_fields_Cons c3_def c2_def c1_def)
  have sl: "slice (rtext r) c (length dn) = dn" using d0 by (rule slice_of_append)
  have cmp: "length dn = length cur \<Longrightarrow>
      (strncmp (drop c (rtext r)) cur (length dn + 1) = 0) = (dn = cur)"
    unfolding d0 using nn(1) by (rule strncmp_field)
  have nb: "(length dn \<noteq> length cur \<or> strncmp (drop c (rtext r)) cur (length dn + 1) \<noteq> 0) =
      (dn \<noteq> cur)"
    using cmp by (cases "length dn = length cur") auto
  show ?thesis
  proof (cases "dn = cur")
    case True
    then show ?thesis
      unfolding read_entry_def
      using nb t c'
      by (simp add: g0 g1 g2 fs decode_row_def r3_def)
  next
    case False
    then show ?thesis
      unfolding read_entry_def
      using nb t c'
      by (simp add: g0 g1 g2 fs decode_row_def r3_def sl safe_string_from_size_def)
  qed
qed

lemma row_text_unfold: "row_text fs = nul_fields fs @ [LF, NUL]"
  by (simp add: row_text_def nul_fields_def)

lemma row_dirname_decode: "fs \<noteq> [] \<Longrightarrow> row_dirname (decode_row fs) = hd fs"
  by (cases fs) (simp_all add: row_dirname_def decode_row_def)

lemma wf_row_not_Nil: "wf_row n fs \<Longrightarrow> fs \<noteq> []"
  by (auto simp: wf_row_def)

lemma take2_trailing:
  "NUL \<notin> set f \<Longrightarrow> (take 2 (f @ NUL # rest) = [LF, NUL]) = (f = [LF])"
proof (cases f)
  case Nil
  then show ?thesis by simp
next
  case (Cons a f')
  assume nn: "NUL \<notin> set f"
  show ?thesis
  proof (cases f')
    case Nil
    then show ?thesis using Cons by simp
  next
    case (Cons b f'')
    then show ?thesis using \<open>f = a # f'\<close> nn by auto
  qed
qed

lemma get_entry_fields:
  assumes e: "end_cstr r = length (rtext r)" and c: "cur_cstr r = Some c"
    and wf: "wf_row num_trees fs" and d: "drop c (rtext r) = nul_fields fs @ tail"
  shows "get_entry r num_trees cur =
     (if tail = [] then Inl (AssertionError NoCharsLeft)
      else if NUL \<notin> set tail then Inl (AssertionError NoTrailingNull)
      else if take 2 tail = [LF, NUL]
        then Inr (decode_row fs, hd fs, hd fs \<noteq> cur,
                  r\<lparr>cur_cstr := Some (c + length (nul_fields fs) + 2)\<rparr>)
      else Inl (AssertionError BadParse))"
proof -
  define c4 where "c4 = c + length (nul_fields fs)"
  define r4 where "r4 = r\<lparr>cur_cstr := Some c4\<rparr>"
  have re: "read_entry r num_trees cur = Inr (decode_row fs, hd fs, hd fs \<noteq> cur, r4)"
    unfolding r4_def c4_def using e c wf d by (rule read_entry_fields)
  have d4: "drop c4 (rtext r) = tail"
    unfolding c4_def using d by (rule drop_add_of_append)
  have f4: "end_cstr r4 = length (rtext r4)" "cur_cstr r4 = Some c4" "rtext r4 = rtext r"
    using e by (simp_all add: r4_def)
  have len: "length (rtext r) - c4 = length tail"
    using d4 by (metis length_drop)
  show ?thesis
  proof (cases "tail = []")
    case True
    then have "end_cstr r4 \<le> c4" using len f4 by simp
    then have "get_next r4 = Inl (AssertionError NoCharsLeft)"
      using f4 by (simp add: get_next_def)
    then show ?thesis using True re by (simp add: get_entry_def)
  next
    case ne: False
    then have lt: "\<not> end_cstr r4 \<le> c4" using len f4 by auto
    show ?thesis
    proof (cases "NUL \<in> set tail")
      case False
      have "drop c4 (rtext r4) = tail @ []" using d4 f4 by simp
      then have "memchr (rtext r4) c4 NUL (end_cstr r4 - c4) = None"
        using False len f4 by (intro memchr_none[where xs = tail and rest = "[]"]) simp_all
      then have "get_next r4 = Inl (AssertionError NoTrailingNull)"
        using f4 lt by (simp add: get_next_def)
      then show ?thesis using ne False re by (simp add: get_entry_def)
    next
      case True
      then obtain f rest where tl: "tail = f @ NUL # rest" and nn: "NUL \<notin> set f"
        by (auto dest: split_list_first)
      have d4': "drop c4 (rtext r4) = f @ NUL # rest" using d4 f4 tl by simp
      have g: "get_next r4 = Inr ((c4, length f), r4\<lparr>cur_cstr := Some (c4 + length f + 1)\<rparr>)"
        using f4(1) f4(2) d4' nn by (rule get_next_field)
      have b: "byte_at (rtext r) c4 = (case f of [] \<Rightarrow> NUL | a # _ \<Rightarrow> a)"
        using d4 tl by (cases f) (auto dest: byte_at_drop)
      have ok: "(length f = 1 \<and> byte_at (rtext r) c4 = LF) = (f = [LF])"
        unfolding b by (cases f) auto
      have t2: "(take 2 tail = [LF, NUL]) = (f = [LF])"
        unfolding tl using nn by (rule take2_trailing)
      show ?thesis
      proof (cases "f = [LF]")
        case good: True
        then have "get_entry r num_trees cur =
            Inr (decode_row fs, hd fs, hd fs \<noteq> cur, r4\<lparr>cur_cstr := Some (c4 + length f + 1)\<rparr>)"
          using re g ok by (simp add: get_entry_def)
        then show ?thesis using ne True t2 good by (simp add: r4_def c4_def)
      next
        case bad: False
        then have "length f \<noteq> 1 \<or> byte_at (rtext r) c4 \<noteq> LF" using ok by blast
        then have "get_entry r num_trees cur = Inl (AssertionError BadParse)"
          using re g by (auto simp: get_entry_def)
        then show ?thesis using ne True t2 bad by simp
      qed
    qed
  qed
qed

lemma get_entry_row:
  assumes "end_cstr r = length (rtext r)" and "cur_cstr r = Some c"
    and "wf_row num_trees fs" and "drop c (rtext r) = row_text fs @ rest"
  shows "get_entry r num_trees cur =
     Inr (decode_row fs, hd fs, hd fs \<noteq> cur, r\<lparr>cur_cstr := Some (c + length (row_text fs))\<rparr>)"
proof -
  have "drop c (rtext r) = nul_fields fs @ (LF # NUL # rest)"
    using assms(4) by (simp add: row_text_unfold)
  from get_entry_fields[OF assms(1) assms(2) assms(3) this, of cur]
  show ?thesis by (simp add: row_text_unfold)
qed

lemma parse_loop_done:
  "cur_cstr (rd st) = Some c \<Longrightarrow> end_cstr (rd st) \<le> c \<Longrightarrow> parse_loop num_trees st = Inr st"
  by (subst parse_loop.simps) simp

lemma parse_loop_step:
  assumes "cur_cstr (rd st) = Some c" and "c < end_cstr (rd st)"
    and "get_entry (rd st) num_trees (current_dirname st) = Inr (e, dirname, new_block, r')"
  shows "parse_loop num_trees st =
         parse_loop num_trees
           ((append_entry (if new_block then open_block st dirname else st) e)
              \<lparr>rd := r', current_dirname := dirname, entry_count := entry_count st + 1\<rparr>)"
  by (subst parse_loop.simps) (simp add: assms)

lemma parse_loop_fail:
  assumes "cur_cstr (rd st) = Some c" and "c < end_cstr (rd st)"
    and "get_entry (rd st) num_trees (current_dirname st) = Inl err"
  shows "parse_loop num_trees st = Inl err"
  by (subst parse_loop.simps) (simp add: assms)

lemma parse_loop_rows:
  assumes "list_all (wf_row num_trees) fss"
    and "end_cstr (rd st) = length (rtext (rd st))" and "cur_cstr (rd st) = Some c"
    and "drop c (rtext (rd st)) = concat (map row_text fss) @ tail"
    and "current_block st < length (dirblocks st)"
  shows "\<exists>st1. parse_loop num_trees st = parse_loop num_trees st1 \<and>
           rd st1 = (rd st)\<lparr>cur_cstr := Some (c + length (concat (map row_text fss)))\<rparr> \<and>
           entry_count st1 = entry_count st + length fss \<and>
           dirblocks st1 =
             (dirblocks st)[current_block st :=
                (fst (dirblocks st ! current_block st),
                 snd (dirblocks st ! current_block st)
                 @ takeWhile (\<lambda>e. row_dirname e = current_dirname st) (map decode_row fss))]
             @ runs (dropWhile (\<lambda>e. row_dirname e = current_dirname st) (map decode_row fss))"
  using assms
proof (induction fss arbitrary: st c)
  case Nil
  have "(rd st)\<lparr>cur_cstr := Some c\<rparr> = rd st" using Nil.prems(3) by simp
  then show ?case by (intro exI[of _ st]) simp
next
  case (Cons fs fss)
  let ?bs = "dirblocks st"
  let ?cb = "current_block st"
  let ?d = "current_dirname st"
  let ?e = "decode_row fs"
  have wf: "wf_row num_trees fs" and wfs: "list_all (wf_row num_trees) fss"
    using Cons.prems(1) by simp_all
  have dn: "row_dirname ?e = hd fs"
    using wf by (intro row_dirname_decode wf_row_not_Nil)
  have d: "drop c (rtext (rd st)) = row_text fs @ (concat (map row_text fss) @ tail)"
    using Cons.prems(4) by simp
  define r' where "r' = (rd st)\<lparr>cur_cstr := Some (c + length (row_text fs))\<rparr>"
  have g: "get_entry (rd st) num_trees ?d = Inr (?e, hd fs, hd fs \<noteq> ?d, r')"
    unfolding r'_def using Cons.prems(2) Cons.prems(3) wf d by (rule get_entry_row)
  have "length (rtext (rd st)) - c = length (drop c (rtext (rd st)))" by simp
  then have lt: "c < end_cstr (rd st)"
    unfolding d using Cons.prems(2) by (simp add: row_text_unfold)
  define st' where "st' = (append_entry (if hd fs \<noteq> ?d then open_block st (hd fs) else st) ?e)
              \<lparr>rd := r', current_dirname := hd fs, entry_count := entry_count st + 1\<rparr>"
  have step: "parse_loop num_trees st = parse_loop num_trees st'"
    unfolding st'_def using Cons.prems(3) lt g by (rule parse_loop_step)
  have r1: "rd st' = r'" "current_dirname st' = hd fs" "entry_count st' = entry_count st + 1"
    by (simp_all add: st'_def append_entry_def open_block_def)
  have e': "end_cstr (rd st') = length (rtext (rd st'))"
    and c': "cur_cstr (rd st') = Some (c + length (row_text fs))"
    using Cons.prems(2) by (simp_all add: r1 r'_def)
  have d': "drop (c + length (row_text fs)) (rtext (rd st')) = concat (map row_text fss) @ tail"
    using drop_add_of_append[OF d] by (simp add: r1 r'_def)
  let ?rows = "map decode_row fss"
  show ?case
  proof (cases "hd fs = ?d")
    case True
    have bs': "dirblocks st' = ?bs[?cb := (fst (?bs ! ?cb), snd (?bs ! ?cb) @ [?e])]"
      and cb': "current_block st' = ?cb"
      using True by (simp_all add: st'_def append_entry_def)
    have cbl: "current_block st' < length (dirblocks st')"
      using Cons.prems(5) by (simp add: bs' cb')
    from Cons.IH[OF wfs e' c' d' cbl] obtain st1 where
      st1: "parse_loop num_trees st' = parse_loop num_trees st1"
        "rd st1 = (rd st')\<lparr>cur_cstr := Some (c + length (row_text fs) + length (concat (map row_text fss)))\<rparr>"
        "entry_count st1 = entry_count st' + length fss"
        "dirblocks st1 =
           (dirblocks st')[current_block st' :=
              (fst (dirblocks st' ! current_block st'),
               snd (dirblocks st' ! current_block st')
               @ takeWhile (\<lambda>e. row_dirname e = current_dirname st') ?rows)]
           @ runs (dropWhile (\<lambda>e. row_dirname e = current_dirname st') ?rows)"
      by blast
    have blocks: "dirblocks st1 =
        ?bs[?cb := (fst (?bs ! ?cb),
                    snd (?bs ! ?cb) @ takeWhile (\<lambda>e. row_dirname e = ?d) (map decode_row (fs # fss)))]
        @ runs (dropWhile (\<lambda>e. row_dirname e = ?d) (map decode_row (fs # fss)))"
      unfolding st1(4) bs' cb' r1(2)
      using True dn Cons.prems(5) by simp
    show ?thesis
      using step st1(1) st1(2) st1(3) blocks
      by (intro exI[of _ st1]) (simp add: r1 r'_def add.assoc)
  next
    case False
    have bs': "dirblocks st' = ?bs @ [(hd fs, [?e])]"
      and cb': "current_block st' = length ?bs"
      using False by (simp_all add: st'_def append_entry_def open_block_def)
    have cbl: "current_block st' < length (dirblocks st')"
      by (simp add: bs' cb')
    from Cons.IH[OF wfs e' c' d' cbl] obtain st1 where
      st1: "parse_loop num_trees st' = parse_loop num_trees st1"
        "rd st1 = (rd st')\<lparr>cur_cstr := Some (c + length (row_text fs) + length (concat (map row_text fss)))\<rparr>"
        "entry_count st1 = entry_count st' + length fss"
        "dirblocks st1 =
           (dirblocks st')[current_block st' :=
              (fst (dirblocks st' ! current_block st'),
               snd (dirblocks st' ! current_block st')
               @ takeWhile (\<lambda>e. row_dirname e = current_dirname st') ?rows)]
           @ runs (dropWhile (\<lambda>e. row_dirname e = current_dirname st') ?rows)"
      by blast
    have "?bs[?cb := (fst (?bs ! ?cb), snd (?bs ! ?cb) @ [])] = ?bs"
      by simp
    then have blocks: "dirblocks st1 =
        ?bs[?cb := (fst (?bs ! ?cb),
                    snd (?bs ! ?cb) @ takeWhile (\<lambda>e. row_dirname e = ?d) (map decode_row (fs # fss)))]
        @ runs (dropWhile (\<lambda>e. row_dirname e = ?d) (map decode_row (fs # fss)))"
      unfolding st1(4) bs' cb' r1(2)
      using False dn by simp
    show ?thesis
      using step st1(1) st1(2) st1(3) blocks
      by (intro exI[of _ st1]) (simp add: r1 r'_def add.assoc)
  qed
qed

lemma all_rows_runs: "all_rows (runs es) = es"
proof (induction es rule: runs.induct)
  case 1
  then show ?case by (simp add: all_rows_def)
next
  case (2 e es)
  then show ?case by (simp add: all_rows_def)
qed

lemma all_rows_blocks_of: "all_rows (blocks_of rows) = rows"
  using all_rows_runs[of "dropWhile (\<lambda>e. row_dirname e = []) rows"]
  by (simp add: blocks_of_def all_rows_def)

lemma fields_read_refl: "cur_cstr r = Some c \<Longrightarrow> fields_read r r []"
  by (simp add: fields_read_def nul_fields_def slice_def)

lemma fields_read_trans:
  assumes "fields_read r r1 fs" and "fields_read r1 r2 gs"
  shows "fields_read r r2 (fs @ gs)"
proof -
  obtain c where c: "cur_cstr r = Some c" using assms(1) by (auto simp: fields_read_def)
  let ?a = "length (nul_fields fs)" and ?b = "length (nul_fields gs)"
  have 1: "take ?a (drop c (rtext r)) = nul_fields fs" "cur_cstr r1 = Some (c + ?a)"
    "rtext r1 = rtext r"
    using assms(1) c by (simp_all add: fields_read_def slice_def)
  have 2: "take ?b (drop (c + ?a) (rtext r)) = nul_fields gs" "cur_cstr r2 = Some (c + ?a + ?b)"
    using assms(2) 1 by (simp_all add: fields_read_def slice_def)
  have "take (?a + ?b) (drop c (rtext r)) = nul_fields fs @ nul_fields gs"
    using 1(1) 2(1) by (simp add: take_add add.commute)
  then show ?thesis
    using assms c 1 2 by (simp add: fields_read_def slice_def nul_fields_append add.assoc)
qed

lemma fields_read_drop:
  assumes "fields_read r r' fs" and "cur_cstr r = Some c"
  shows "drop c (rtext r) = nul_fields fs @ drop (c + length (nul_fields fs)) (rtext r)"
proof -
  have "take (length (nul_fields fs)) (drop c (rtext r)) = nul_fields fs"
    using assms by (simp add: fields_read_def slice_def)
  then show ?thesis
    by (metis add.commute append_take_drop_id drop_drop)
qed

lemma get_next_fields_read:
  assumes g: "get_next r = Inr ((p, n), r')" and e: "end_cstr r = length (rtext r)"
  shows "\<exists>f. fields_read r r' [f] \<and> length f = n \<and> slice (rtext r) p n = f \<and>
             cur_cstr r = Some p"
proof -
  note adv = get_next_advances[OF g]
  obtain nul where m: "memchr (rtext r) p NUL (end_cstr r - p) = Some nul" and n: "n = nul - p"
    using g by (auto simp: get_next_def split: option.splits if_splits)
  from memchr_bounds[OF m] have b: "p \<le> nul" "nul < length (rtext r)"
    using e by auto
  define f where "f = slice (rtext r) p n"
  have len: "length f = n" using b n by (simp add: f_def slice_def)
  have nn: "NUL \<notin> set f"
  proof
    assume "NUL \<in> set f"
    then obtain j where j: "j < length f" "f ! j = NUL" by (auto simp: in_set_conv_nth)
    then have "rtext r ! (p + j) = NUL" using len b n by (simp add: f_def slice_def)
    moreover have "byte_at (rtext r) (p + j) \<noteq> NUL"
      using memchr_first[OF m, of "p + j"] j(1) len n by simp
    moreover have "p + j < length (rtext r)" using j(1) len n b by simp
    ultimately show False by (simp add: byte_at_def)
  qed
  have "byte_at (rtext r) (p + n) = NUL" using adv by simp
  then have z: "rtext r ! (p + n) = NUL" using b n by (simp add: byte_at_def)
  have "take (n + 1) (drop p (rtext r)) = take n (drop p (rtext r)) @ [rtext r ! (p + n)]"
    using b n by (simp add: take_Suc_conv_app_nth)
  then have "slice (rtext r) p (length (nul_fields [f])) = nul_fields [f]"
    using z len by (simp add: nul_fields_def slice_def f_def)
  then have "fields_read r r' [f]"
    using adv nn len by (simp add: fields_read_def nul_fields_def)
  then show ?thesis using len adv f_def by (intro exI[of _ f]) simp
qed

lemma get_next_str_fields_read:
  assumes "get_next_str r = Inr (s, r')" and "end_cstr r = length (rtext r)"
  shows "fields_read r r' [s]"
proof -
  obtain p n where g: "get_next r = Inr ((p, n), r')" and s: "s = slice (rtext r) p n"
    using assms(1)
    by (auto simp: get_next_str_def safe_string_from_size_def split: sum.splits)
  from get_next_fields_read[OF g assms(2)] s show ?thesis by auto
qed

lemma fields_read_end:
  "fields_read r r' fs \<Longrightarrow> end_cstr r = length (rtext r) \<Longrightarrow> end_cstr r' = length (rtext r')"
  by (simp add: fields_read_def)

lemma read_trees_fields_read:
  assumes "read_trees i r trees = Inr (ts, r')" and "end_cstr r = length (rtext r)"
    and "cur_cstr r = Some c"
  shows "\<exists>fs. length fs = 5 * i \<and> fields_read r r' fs"
  using assms
proof (induction i arbitrary: r trees c)
  case 0
  then show ?case using fields_read_refl[of r c] by auto
next
  case (Suc i)
  from Suc.prems(1) obtain minikind r1 fingerprint r2 x3 r3 x4 r4 info r5 where
    s: "get_next_str r = Inr (minikind, r1)" "get_next_str r1 = Inr (fingerprint, r2)"
       "get_next r2 = Inr (x3, r3)" "get_next r3 = Inr (x4, r4)"
       "get_next_str r4 = Inr (info, r5)"
    and rec: "read_trees i r5
         (trees @ [(minikind, fingerprint, strtoul (slice (rtext r) (fst x3) (snd x3)),
                    byte_at (rtext r) (fst x4) = CHR ''y'', info)]) = Inr (ts, r')"
    by (auto simp: and_then_Inr_iff)
  note e0 = Suc.prems(2)
  have f1: "fields_read r r1 [minikind]" using s(1) e0 by (rule get_next_str_fields_read)
  note e1 = fields_read_end[OF f1 e0]
  have f2: "fields_read r1 r2 [fingerprint]" using s(2) e1 by (rule get_next_str_fields_read)
  note e2 = fields_read_end[OF f2 e1]
  obtain f3 where f3: "fields_read r2 r3 [f3]"
    using get_next_fields_read[of r2 "fst x3" "snd x3" r3] s(3) e2 by auto
  note e3 = fields_read_end[OF f3 e2]
  obtain f4 where f4: "fields_read r3 r4 [f4]"
    using get_next_fields_read[of r3 "fst x4" "snd x4" r4] s(4) e3 by auto
  note e4 = fields_read_end[OF f4 e3]
  have f5: "fields_read r4 r5 [info]" using s(5) e4 by (rule get_next_str_fields_read)
  note e5 = fields_read_end[OF f5 e4]
  have all5: "fields_read r r5 [minikind, fingerprint, f3, f4, info]"
    using fields_read_trans[OF f1 fields_read_trans[OF f2 fields_read_trans[OF f3
          fields_read_trans[OF f4 f5]]]]
    by simp
  obtain c5 where c5: "cur_cstr r5 = Some c5" using all5 by (auto simp: fields_read_def)
  from Suc.IH[OF rec e5 c5] obtain fs where fs: "length fs = 5 * i" "fields_read r5 r' fs"
    by blast
  have "fields_read r r' ([minikind, fingerprint, f3, f4, info] @ fs)"
    using all5 fs(2) by (rule fields_read_trans)
  then show ?case using fs(1)
    by (intro exI[of _ "[minikind, fingerprint, f3, f4, info] @ fs"]) simp
qed

lemma get_entry_fields_read:
  assumes g: "get_entry r num_trees d = Inr (ret, d', nb, r')"
    and e: "end_cstr r = length (rtext r)"
  shows "\<exists>fs. wf_row num_trees fs \<and> fields_read r r' (fs @ [[LF]])"
proof -
  from g obtain ret4 d4 nb4 r4 t n where
    re: "read_entry r num_trees d = Inr (ret4, d4, nb4, r4)"
    and gn: "get_next r4 = Inr ((t, n), r')"
    and ok: "n = 1" "byte_at (rtext r) t = LF"
    unfolding get_entry_def by (auto simp: and_then_Inr_iff split: if_splits)
  from re obtain x1 r1 name r2 file_id r3 trees where
    s: "get_next r = Inr (x1, r1)" "get_next_str r1 = Inr (name, r2)"
       "get_next_str r2 = Inr (file_id, r3)" "read_trees num_trees r3 [] = Inr (trees, r4)"
    unfolding read_entry_def by (auto simp: and_then_Inr_iff)
  obtain f1 where f1: "fields_read r r1 [f1]"
    using get_next_fields_read[of r "fst x1" "snd x1" r1] s(1) e by auto
  note e1 = fields_read_end[OF f1 e]
  have f2: "fields_read r1 r2 [name]" using s(2) e1 by (rule get_next_str_fields_read)
  note e2 = fields_read_end[OF f2 e1]
  have f3: "fields_read r2 r3 [file_id]" using s(3) e2 by (rule get_next_str_fields_read)
  note e3 = fields_read_end[OF f3 e2]
  have key: "fields_read r r3 [f1, name, file_id]"
    using fields_read_trans[OF f1 fields_read_trans[OF f2 f3]] by simp
  obtain c3 where c3: "cur_cstr r3 = Some c3" using key by (auto simp: fields_read_def)
  from read_trees_fields_read[OF s(4) e3 c3] obtain ts where
    ts: "length ts = 5 * num_trees" "fields_read r3 r4 ts"
    by blast
  note e4 = fields_read_end[OF ts(2) e3]
  have row: "fields_read r r4 ([f1, name, file_id] @ ts)"
    using key ts(2) by (rule fields_read_trans)
  obtain f where f: "fields_read r4 r' [f]" "length f = n" "slice (rtext r4) t n = f"
    using get_next_fields_read[OF gn e4] by blast
  have same: "rtext r4 = rtext r" using row by (simp add: fields_read_def)
  have "f = [LF]"
    using f(2) f(3) ok slice_one[of "rtext r" t LF] same
    by (cases f) (auto simp: slice_def)
  then have "fields_read r r' (([f1, name, file_id] @ ts) @ [[LF]])"
    using fields_read_trans[OF row f(1)] by simp
  moreover have "wf_row num_trees ([f1, name, file_id] @ ts)"
    using row ts(1) by (simp add: wf_row_def fields_read_def)
  ultimately show ?thesis by blast
qed

lemma parse_loop_Inr_rows:
  assumes "parse_loop num_trees st = Inr st'"
    and "end_cstr (rd st) = length (rtext (rd st))" and "cur_cstr (rd st) = Some c"
  shows "\<exists>fss. list_all (wf_row num_trees) fss \<and>
           drop c (rtext (rd st)) = concat (map row_text fss)"
  using assms
proof (induction num_trees st arbitrary: c rule: parse_loop.induct)
  case (1 num_trees st)
  show ?case
  proof (cases "c < end_cstr (rd st)")
    case False
    then have "drop c (rtext (rd st)) = []" using "1.prems"(2) by simp
    then show ?thesis by (intro exI[of _ "[]"]) simp
  next
    case True
    then have cond: "case cur_cstr (rd st) of None \<Rightarrow> True | Some c \<Rightarrow> c < end_cstr (rd st)"
      using "1.prems"(3) by simp
    then obtain e d' nb r' where
      g: "get_entry (rd st) num_trees (current_dirname st) = Inr (e, d', nb, r')"
      and rec: "parse_loop num_trees
               ((append_entry (if nb then open_block st d' else st) e)
                  \<lparr>rd := r', current_dirname := d', entry_count := entry_count st + 1\<rparr>) = Inr st'"
      using "1.prems"(1)
      by (subst (asm) parse_loop.simps) (auto split: sum.splits)
    from get_entry_fields_read[OF g "1.prems"(2)] obtain fs where
      fs: "wf_row num_trees fs" "fields_read (rd st) r' (fs @ [[LF]])"
      by blast
    have d: "drop c (rtext (rd st)) = row_text fs @ drop (c + length (row_text fs)) (rtext (rd st))"
      using fields_read_drop[OF fs(2) "1.prems"(3)] by (simp add: row_text_def)
    have c': "cur_cstr r' = Some (c + length (row_text fs))" and t': "rtext r' = rtext (rd st)"
      and e': "end_cstr r' = length (rtext r')"
      using fs(2) "1.prems"(2) "1.prems"(3) by (simp_all add: fields_read_def row_text_def)
    define st1 where "st1 = (append_entry (if nb then open_block st d' else st) e)
                  \<lparr>rd := r', current_dirname := d', entry_count := entry_count st + 1\<rparr>"
    have rd1: "rd st1 = r'" by (simp add: st1_def)
    have "\<exists>fss. list_all (wf_row num_trees) fss \<and>
           drop (c + length (row_text fs)) (rtext (rd st1)) = concat (map row_text fss)"
      using "1.IH"[OF cond g refl refl refl, of "c + length (row_text fs)"] rec e' c'
      by (simp add: st1_def)
    then obtain fss where fss: "list_all (wf_row num_trees) fss"
      "drop (c + length (row_text fs)) (rtext (rd st)) = concat (map row_text fss)"
      using rd1 t' by auto
    show ?thesis
      using fs(1) fss d by (intro exI[of _ "fs # fss"]) simp
  qed
qed

lemma init_field:
  assumes "end_cstr r = length (rtext r)" and "cur_cstr r = Some c"
    and "drop c (rtext r) = f0 @ NUL # rest" and "NUL \<notin> set f0"
  shows "init r = Inr (r\<lparr>cur_cstr := Some (c + length f0 + 1)\<rparr>)"
  using get_next_field[OF assms] by (simp add: init_only_get_next)

lemma c_int_simps:
  "in_c_int v \<Longrightarrow> c_int v = Inr v" "\<not> in_c_int v \<Longrightarrow> c_int v = Inl OverflowError"
  by (simp_all add: c_int_def)

lemma read_dirblocks_overflow:
  "\<not> in_c_int (npp + 1) \<or> \<not> in_c_int ne \<Longrightarrow> read_dirblocks r npp ne = Inl OverflowError"
  by (cases "in_c_int (npp + 1)") (auto simp: read_dirblocks_def c_int_simps)

lemma parse_loop_good_rows:
  assumes e: "end_cstr r0 = length (rtext r0)" and c: "cur_cstr r0 = Some c0"
    and wf: "list_all (wf_row num_trees) fss"
    and d: "drop c0 (rtext r0) = concat (map row_text fss) @ tail"
  shows "\<exists>st1. parse_loop num_trees (initial_state r0) = parse_loop num_trees st1 \<and>
           rd st1 = r0\<lparr>cur_cstr := Some (c0 + length (concat (map row_text fss)))\<rparr> \<and>
           entry_count st1 = length fss \<and>
           dirblocks st1 = blocks_of (map decode_row fss)"
proof -
  let ?st = "initial_state r0"
  have 1: "end_cstr (rd ?st) = length (rtext (rd ?st))" "cur_cstr (rd ?st) = Some c0"
    "drop c0 (rtext (rd ?st)) = concat (map row_text fss) @ tail"
    "current_block ?st < length (dirblocks ?st)"
    using e c d by (simp_all add: initial_state_def)
  from parse_loop_rows[OF wf 1] obtain st1 where
    st1: "parse_loop num_trees ?st = parse_loop num_trees st1"
      "rd st1 = (rd ?st)\<lparr>cur_cstr := Some (c0 + length (concat (map row_text fss)))\<rparr>"
      "entry_count st1 = entry_count ?st + length fss"
      "dirblocks st1 =
         (dirblocks ?st)[current_block ?st :=
            (fst (dirblocks ?st ! current_block ?st),
             snd (dirblocks ?st ! current_block ?st)
             @ takeWhile (\<lambda>e. row_dirname e = current_dirname ?st) (map decode_row fss))]
         @ runs (dropWhile (\<lambda>e. row_dirname e = current_dirname ?st) (map decode_row fss))"
    by blast
  have "dirblocks st1 = blocks_of (map decode_row fss)"
    unfolding st1(4) by (simp add: initial_state_def blocks_of_def)
  then show ?thesis
    using st1(1) st1(2) st1(3) by (intro exI[of _ st1]) (simp add: initial_state_def)
qed

lemma read_dirblocks_rows:
  assumes e: "end_cstr r = length (rtext r)" and c: "cur_cstr r = Some c"
    and d: "drop c (rtext r) = f0 @ NUL # concat (map row_text fss)" and nn: "NUL \<notin> set f0"
    and wf: "list_all (wf_row (nat (npp + 1))) fss"
    and r1: "in_c_int (npp + 1)" and r2: "in_c_int ne"
  shows "read_dirblocks r npp ne =
         (if int (length fss) = ne then Inr (blocks_of (map decode_row fss))
          else Inl (AssertionError WrongEntryCount))"
proof -
  define c0 where "c0 = c + length f0 + 1"
  define r0 where "r0 = r\<lparr>cur_cstr := Some c0\<rparr>"
  have i: "init r = Inr r0"
    unfolding r0_def c0_def using e c d nn by (rule init_field)
  have e0: "end_cstr r0 = length (rtext r0)" and cc: "cur_cstr r0 = Some c0"
    using e by (simp_all add: r0_def)
  have d0: "drop c0 (rtext r0) = concat (map row_text fss) @ []"
    using drop_add_of_append[OF d] drop_Suc_of_Cons[of "c + length f0" "rtext r" NUL]
    by (simp add: c0_def r0_def)
  from parse_loop_good_rows[OF e0 cc wf d0] obtain st1 where
    st1: "parse_loop (nat (npp + 1)) (initial_state r0) = parse_loop (nat (npp + 1)) st1"
      "rd st1 = r0\<lparr>cur_cstr := Some (c0 + length (concat (map row_text fss)))\<rparr>"
      "entry_count st1 = length fss"
      "dirblocks st1 = blocks_of (map decode_row fss)"
    by blast
  have "length (rtext r0) - c0 = length (drop c0 (rtext r0))" by simp
  then have "end_cstr (rd st1) \<le> c0 + length (concat (map row_text fss))"
    unfolding d0 using e0 st1(2) by simp
  then have "parse_loop (nat (npp + 1)) st1 = Inr st1"
    using st1(2) by (intro parse_loop_done[where c = "c0 + length (concat (map row_text fss))"]) simp_all
  then show ?thesis
    using i st1 r1 r2 by (auto simp: read_dirblocks_def c_int_simps)
qed

lemma read_dirblocks_bad_row:
  assumes e: "end_cstr r = length (rtext r)" and c: "cur_cstr r = Some c"
    and d: "drop c (rtext r) = f0 @ NUL # concat (map row_text fss) @ nul_fields fs @ tail"
    and nn: "NUL \<notin> set f0"
    and wf: "list_all (wf_row (nat (npp + 1))) fss" and wf1: "wf_row (nat (npp + 1)) fs"
    and r1: "in_c_int (npp + 1)" and r2: "in_c_int ne"
    and bad: "take 2 tail \<noteq> [LF, NUL]"
  shows "read_dirblocks r npp ne =
         Inl (AssertionError (if tail = [] then NoCharsLeft
                              else if NUL \<notin> set tail then NoTrailingNull else BadParse))"
proof -
  define c0 where "c0 = c + length f0 + 1"
  define r0 where "r0 = r\<lparr>cur_cstr := Some c0\<rparr>"
  have i: "init r = Inr r0"
    unfolding r0_def c0_def using e c d nn by (rule init_field)
  have e0: "end_cstr r0 = length (rtext r0)" and cc: "cur_cstr r0 = Some c0"
    using e by (simp_all add: r0_def)
  have d0: "drop c0 (rtext r0) = concat (map row_text fss) @ (nul_fields fs @ tail)"
    using drop_add_of_append[OF d] drop_Suc_of_Cons[of "c + length f0" "rtext r" NUL]
    by (simp add: c0_def r0_def)
  from parse_loop_good_rows[OF e0 cc wf d0] obtain st1 where
    st1: "parse_loop (nat (npp + 1)) (initial_state r0) = parse_loop (nat (npp + 1)) st1"
      "rd st1 = r0\<lparr>cur_cstr := Some (c0 + length (concat (map row_text fss)))\<rparr>"
    by blast
  define c1 where "c1 = c0 + length (concat (map row_text fss))"
  have e1: "end_cstr (rd st1) = length (rtext (rd st1))" and c1: "cur_cstr (rd st1) = Some c1"
    using e0 st1(2) by (simp_all add: c1_def)
  have d1: "drop c1 (rtext (rd st1)) = nul_fields fs @ tail"
    using drop_add_of_append[OF d0] st1(2) by (simp add: c1_def)
  have g: "get_entry (rd st1) (nat (npp + 1)) (current_dirname st1) =
      Inl (AssertionError (if tail = [] then NoCharsLeft
                           else if NUL \<notin> set tail then NoTrailingNull else BadParse))"
    using get_entry_fields[OF e1 c1 wf1 d1, of "current_dirname st1"] bad by simp
  have "fs \<noteq> []" using wf1 by (rule wf_row_not_Nil)
  then have "nul_fields fs \<noteq> []" by (cases fs) (simp_all add: nul_fields_def)
  moreover have "length (rtext (rd st1)) - c1 = length (drop c1 (rtext (rd st1)))" by simp
  ultimately have lt: "c1 < end_cstr (rd st1)"
    unfolding d1 using e1 by (cases "nul_fields fs") auto
  have "parse_loop (nat (npp + 1)) st1 =
      Inl (AssertionError (if tail = [] then NoCharsLeft
                           else if NUL \<notin> set tail then NoTrailingNull else BadParse))"
    using c1 lt g by (rule parse_loop_fail)
  then show ?thesis
    using i st1(1) r1 r2 by (simp add: read_dirblocks_def c_int_simps)
qed

lemma read_dirblocks_Inr_rows:
  assumes ok: "read_dirblocks r npp ne = Inr bs" and e: "end_cstr r = length (rtext r)"
  shows "\<exists>c f0 fss. cur_cstr r = Some c \<and>
           drop c (rtext r) = f0 @ NUL # concat (map row_text fss) \<and> NUL \<notin> set f0 \<and>
           list_all (wf_row (nat (npp + 1))) fss \<and> in_c_int (npp + 1) \<and> in_c_int ne"
proof -
  have r1: "in_c_int (npp + 1)" and r2: "in_c_int ne"
    using ok by (auto simp: read_dirblocks_def c_int_def and_then_Inr_iff split: if_splits)
  from ok obtain r0 st where i: "init r = Inr r0"
    and l: "parse_loop (nat (npp + 1)) (initial_state r0) = Inr st"
    using r1 r2 by (auto simp: read_dirblocks_def c_int_simps and_then_Inr_iff)
  from i obtain p n where g: "get_next r = Inr ((p, n), r0)"
    by (auto simp: init_only_get_next split: sum.splits)
  from get_next_fields_read[OF g e] obtain f0 where
    f0: "fields_read r r0 [f0]" and c: "cur_cstr r = Some p"
    by blast
  have d: "drop p (rtext r) = f0 @ NUL # drop (p + length f0 + 1) (rtext r)"
    using fields_read_drop[OF f0 c] by (simp add: nul_fields_def)
  have nn: "NUL \<notin> set f0" and c0: "cur_cstr r0 = Some (p + length f0 + 1)"
    and t0: "rtext r0 = rtext r" and e0: "end_cstr r0 = length (rtext r0)"
    using f0 c e by (simp_all add: fields_read_def nul_fields_def)
  have "\<exists>fss. list_all (wf_row (nat (npp + 1))) fss \<and>
           drop (p + length f0 + 1) (rtext (rd (initial_state r0))) = concat (map row_text fss)"
    using l by (rule parse_loop_Inr_rows) (simp_all add: initial_state_def e0 c0)
  then obtain fss where fss: "list_all (wf_row (nat (npp + 1))) fss"
    "drop (p + length f0 + 1) (rtext r) = concat (map row_text fss)"
    using t0 by (auto simp: initial_state_def)
  show ?thesis
    using c d nn fss r1 r2 by (intro exI[of _ p] exI[of _ f0] exI[of _ fss]) simp
qed

text \<open>
  C6. Take a text in which a first field and some complete rows are followed by the
  key fields and all the tree columns of one more row, and then by \<open>tail\<close>. At that row
  \<open>_get_entry\<close> returns the row exactly when \<open>tail\<close> starts with a field that is one line
  feed; otherwise it raises: \<open>Bad parse\<close> when the trailing field is anything else, and
  the assertions of \<open>get_next\<close> when no byte is left or no NUL ends the field. In that
  case the whole parse of the text ends with the same exception, whatever entry count
  is expected; it returns no blocks.
\<close>

theorem get_entry_trailing_field:
  assumes "t = f0 @ NUL # concat (map row_text fss) @ nul_fields fs @ tail"
    and "NUL \<notin> set f0" and "list_all (wf_row (nat (npp + 1))) fss"
    and "wf_row (nat (npp + 1)) fs" and "in_c_int (npp + 1)"
    and "start = length f0 + 1 + length (concat (map row_text fss))"
  shows "get_entry ((reader_of t)\<lparr>cur_cstr := Some start\<rparr>) (nat (npp + 1)) d =
           (if take 2 tail = [LF, NUL]
            then Inr (decode_row fs, hd fs, hd fs \<noteq> d,
                      (reader_of t)\<lparr>cur_cstr := Some (start + length (row_text fs))\<rparr>)
            else Inl (AssertionError (if tail = [] then NoCharsLeft
                                      else if NUL \<notin> set tail then NoTrailingNull
                                      else BadParse))) \<and>
         (if take 2 tail = [LF, NUL] then True
          else read_dirblocks (reader_of t) npp ne =
                 Inl (if in_c_int ne
                      then AssertionError (if tail = [] then NoCharsLeft
                                           else if NUL \<notin> set tail then NoTrailingNull
                                           else BadParse)
                      else OverflowError))"
proof -
  let ?r = "(reader_of t)\<lparr>cur_cstr := Some start\<rparr>"
  have e: "end_cstr ?r = length (rtext ?r)" and c: "cur_cstr ?r = Some start"
    by (simp_all add: reader_of_def)
  have "drop start t = nul_fields fs @ tail"
    unfolding assms(1) assms(6) by simp
  then have d: "drop start (rtext ?r) = nul_fields fs @ tail"
    by (simp add: reader_of_def)
  have ge: "get_entry ?r (nat (npp + 1)) d =
           (if take 2 tail = [LF, NUL]
            then Inr (decode_row fs, hd fs, hd fs \<noteq> d,
                      (reader_of t)\<lparr>cur_cstr := Some (start + length (row_text fs))\<rparr>)
            else Inl (AssertionError (if tail = [] then NoCharsLeft
                                      else if NUL \<notin> set tail then NoTrailingNull
                                      else BadParse)))"
  proof (cases "take 2 tail = [LF, NUL]")
    case True
    then have "NUL \<in> set (take 2 tail)" by simp
    then have "NUL \<in> set tail" by (rule in_set_takeD)
    then show ?thesis
      using get_entry_fields[OF e c assms(4) d, of d] True
      by (auto simp: row_text_unfold)
  next
    case False
    then show ?thesis
      using get_entry_fields[OF e c assms(4) d, of d] by simp
  qed
  have rd: "read_dirblocks (reader_of t) npp ne =
                 Inl (if in_c_int ne
                      then AssertionError (if tail = [] then NoCharsLeft
                                           else if NUL \<notin> set tail then NoTrailingNull
                                           else BadParse)
                      else OverflowError)"
    if bad: "take 2 tail \<noteq> [LF, NUL]"
  proof (cases "in_c_int ne")
    case True
    have e0: "end_cstr (reader_of t) = length (rtext (reader_of t))"
      and c0: "cur_cstr (reader_of t) = Some 0"
      and d0: "drop 0 (rtext (reader_of t)) =
          f0 @ NUL # concat (map row_text fss) @ nul_fields fs @ tail"
      using assms(1) by (simp_all add: reader_of_def)
    show ?thesis
      using read_dirblocks_bad_row[OF e0 c0 d0 assms(2) assms(3) assms(4) assms(5) True bad] True
      by simp
  next
    case False
    then show ?thesis by (simp add: read_dirblocks_overflow)
  qed
  show ?thesis using ge rd by simp
qed

text \<open>
  C4, amended. \<open>_parse_dirblocks\<close> converts the expected count and the number of trees to
  C \<open>int\<close> first, and a number outside the range of \<open>int\<close> ends the call with
  \<open>OverflowError\<close> before a row is read. With both in range, and a text that is a first
  field followed by complete rows, the blocks built hold exactly the rows of the text,
  and the call goes on to its last statement when the text has the expected number
  of rows and raises the \<open>wrong number of entries\<close> assertion when it has any other
  number. A call that completes has read a text of exactly the expected number of rows.
\<close>

theorem parse_dirblocks_entry_count:
  assumes "end_cstr r = length (rtext r)"
  shows "(if in_c_int (npp + 1) \<and> in_c_int ne then True
          else parse_dirblocks split_root r npp ne = Inl OverflowError) \<and>
         (\<forall>c f0 fss.
            in_c_int (npp + 1) \<and> in_c_int ne \<and> cur_cstr r = Some c \<and>
            drop c (rtext r) = f0 @ NUL # concat (map row_text fss) \<and> NUL \<notin> set f0 \<and>
            list_all (wf_row (nat (npp + 1))) fss \<longrightarrow>
            all_rows (blocks_of (map decode_row fss)) = map decode_row fss \<and>
            (if int (length fss) = ne
             then read_dirblocks r npp ne = Inr (blocks_of (map decode_row fss)) \<and>
                  parse_dirblocks split_root r npp ne =
                    split_root (blocks_of (map decode_row fss))
             else read_dirblocks r npp ne = Inl (AssertionError WrongEntryCount) \<and>
                  parse_dirblocks split_root r npp ne = Inl (AssertionError WrongEntryCount))) \<and>
         (\<forall>bs'. parse_dirblocks split_root r npp ne = Inr bs' \<longrightarrow>
            (\<exists>c f0 fss. cur_cstr r = Some c \<and>
               drop c (rtext r) = f0 @ NUL # concat (map row_text fss) \<and> NUL \<notin> set f0 \<and>
               list_all (wf_row (nat (npp + 1))) fss \<and> int (length fss) = ne \<and>
               in_c_int (npp + 1) \<and> in_c_int ne \<and>
               read_dirblocks r npp ne = Inr (blocks_of (map decode_row fss)) \<and>
               split_root (blocks_of (map decode_row fss)) = Inr bs'))"
proof (intro conjI allI impI)
  show "if in_c_int (npp + 1) \<and> in_c_int ne then True
        else parse_dirblocks split_root r npp ne = Inl OverflowError"
    using read_dirblocks_overflow[of npp ne r] by (auto simp: parse_dirblocks_def)
next
  fix c f0 fss
  assume a: "in_c_int (npp + 1) \<and> in_c_int ne \<and> cur_cstr r = Some c \<and>
            drop c (rtext r) = f0 @ NUL # concat (map row_text fss) \<and> NUL \<notin> set f0 \<and>
            list_all (wf_row (nat (npp + 1))) fss"
  show "all_rows (blocks_of (map decode_row fss)) = map decode_row fss"
    by (rule all_rows_blocks_of)
  have "read_dirblocks r npp ne =
         (if int (length fss) = ne then Inr (blocks_of (map decode_row fss))
          else Inl (AssertionError WrongEntryCount))"
    using a by (intro read_dirblocks_rows[OF assms, of c f0]) simp_all
  then show "if int (length fss) = ne
             then read_dirblocks r npp ne = Inr (blocks_of (map decode_row fss)) \<and>
                  parse_dirblocks split_root r npp ne =
                    split_root (blocks_of (map decode_row fss))
             else read_dirblocks r npp ne = Inl (AssertionError WrongEntryCount) \<and>
                  parse_dirblocks split_root r npp ne = Inl (AssertionError WrongEntryCount)"
    by (simp add: parse_dirblocks_def)
next
  fix bs' assume "parse_dirblocks split_root r npp ne = Inr bs'"
  then obtain bs where bs: "read_dirblocks r npp ne = Inr bs" "split_root bs = Inr bs'"
    by (auto simp: parse_dirblocks_def and_then_Inr_iff)
  from read_dirblocks_Inr_rows[OF bs(1) assms] obtain c f0 fss where
    t: "cur_cstr r = Some c" "drop c (rtext r) = f0 @ NUL # concat (map row_text fss)"
       "NUL \<notin> set f0" "list_all (wf_row (nat (npp + 1))) fss"
       "in_c_int (npp + 1)" "in_c_int ne"
    by blast
  have v: "read_dirblocks r npp ne =
         (if int (length fss) = ne then Inr (blocks_of (map decode_row fss))
          else Inl (AssertionError WrongEntryCount))"
    using assms t by (rule read_dirblocks_rows)
  then have n: "int (length fss) = ne" and b: "bs = blocks_of (map decode_row fss)"
    using bs(1) by (auto split: if_splits)
  show "\<exists>c f0 fss. cur_cstr r = Some c \<and>
               drop c (rtext r) = f0 @ NUL # concat (map row_text fss) \<and> NUL \<notin> set f0 \<and>
               list_all (wf_row (nat (npp + 1))) fss \<and> int (length fss) = ne \<and>
               in_c_int (npp + 1) \<and> in_c_int ne \<and>
               read_dirblocks r npp ne = Inr (blocks_of (map decode_row fss)) \<and>
               split_root (blocks_of (map decode_row fss)) = Inr bs'"
    using t n b bs by (intro exI[of _ c] exI[of _ f0] exI[of _ fss]) simp
qed

text \<open>
  C10, amended. After every run of \<open>_parse_dirblocks\<close> that completes, the text was a
  first field followed by complete rows, and the block list the function built, which
  its last statement hands to \<open>_split_root_dirblock_into_contents\<close>, is this: block 0
  has the empty directory name and holds exactly the rows of the text that come before
  the first row with a non-empty directory name; block 1 has the empty directory name
  and no rows; the blocks after block 1 are the maximal runs of consecutive rows with
  the same directory name among the other rows, in the order of the text. So a row with
  the empty directory name that follows a row with another name is in a block of its
  own run after block 1, not in block 0. The same holds of every way to read the text
  as a first field followed by rows.
\<close>

theorem read_dirblocks_first_blocks:
  assumes "end_cstr r = length (rtext r)"
    and "parse_dirblocks split_root r npp ne = Inr bs'"
  shows "(\<exists>c f0 fss bs.
            cur_cstr r = Some c \<and>
            drop c (rtext r) = f0 @ NUL # concat (map row_text fss) \<and> NUL \<notin> set f0 \<and>
            list_all (wf_row (nat (npp + 1))) fss \<and>
            read_dirblocks r npp ne = Inr bs \<and> split_root bs = Inr bs' \<and>
            2 \<le> length bs \<and>
            bs ! 0 = ([], takeWhile (\<lambda>e. row_dirname e = []) (map decode_row fss)) \<and>
            bs ! 1 = ([], []) \<and>
            drop 2 bs = runs (dropWhile (\<lambda>e. row_dirname e = []) (map decode_row fss))) \<and>
         (\<forall>c f0 fss.
            cur_cstr r = Some c \<and>
            drop c (rtext r) = f0 @ NUL # concat (map row_text fss) \<and> NUL \<notin> set f0 \<and>
            list_all (wf_row (nat (npp + 1))) fss \<longrightarrow>
            read_dirblocks r npp ne =
              Inr (([], takeWhile (\<lambda>e. row_dirname e = []) (map decode_row fss)) # ([], [])
                   # runs (dropWhile (\<lambda>e. row_dirname e = []) (map decode_row fss))))"
proof -
  from assms(2) obtain bs where bs: "read_dirblocks r npp ne = Inr bs" "split_root bs = Inr bs'"
    by (auto simp: parse_dirblocks_def and_then_Inr_iff)
  from read_dirblocks_Inr_rows[OF bs(1) assms(1)] obtain c f0 fss where
    t: "cur_cstr r = Some c" "drop c (rtext r) = f0 @ NUL # concat (map row_text fss)"
       "NUL \<notin> set f0" "list_all (wf_row (nat (npp + 1))) fss"
    and rg: "in_c_int (npp + 1)" "in_c_int ne"
    by blast
  have val: "bs = blocks_of (map decode_row fss')"
    if "cur_cstr r = Some c'" "drop c' (rtext r) = f0' @ NUL # concat (map row_text fss')"
       "NUL \<notin> set f0'" "list_all (wf_row (nat (npp + 1))) fss'"
    for c' f0' fss'
    using read_dirblocks_rows[OF assms(1) that rg] bs(1) by (auto split: if_splits)
  have b: "bs = blocks_of (map decode_row fss)" using t by (rule val)
  have first: "\<exists>c f0 fss bs.
            cur_cstr r = Some c \<and>
            drop c (rtext r) = f0 @ NUL # concat (map row_text fss) \<and> NUL \<notin> set f0 \<and>
            list_all (wf_row (nat (npp + 1))) fss \<and>
            read_dirblocks r npp ne = Inr bs \<and> split_root bs = Inr bs' \<and>
            2 \<le> length bs \<and>
            bs ! 0 = ([], takeWhile (\<lambda>e. row_dirname e = []) (map decode_row fss)) \<and>
            bs ! 1 = ([], []) \<and>
            drop 2 bs = runs (dropWhile (\<lambda>e. row_dirname e = []) (map decode_row fss))"
    using t bs b
    by (intro exI[of _ c] exI[of _ f0] exI[of _ fss] exI[of _ bs]) (simp add: blocks_of_def)
  have second: "\<forall>c f0 fss.
            cur_cstr r = Some c \<and>
            drop c (rtext r) = f0 @ NUL # concat (map row_text fss) \<and> NUL \<notin> set f0 \<and>
            list_all (wf_row (nat (npp + 1))) fss \<longrightarrow>
            read_dirblocks r npp ne =
              Inr (([], takeWhile (\<lambda>e. row_dirname e = []) (map decode_row fss)) # ([], [])
                   # runs (dropWhile (\<lambda>e. row_dirname e = []) (map decode_row fss)))"
    using val bs(1) by (auto simp: blocks_of_def)
  show ?thesis using first second by (rule conjI)
qed

theorem get_entry_trailing_field_witness:
  "read_dirblocks (reader_of (NUL # concat (map row_text [[''d'', ''n'', ''id'', ''f'', ''sha'', ''10'', ''y'', ''st'', ''d'', [], ''0'', ''n'', ''rev'']]) @ nul_fields [''d'', ''n'', ''id'', ''f'', ''sha'', ''10'', ''y'', ''st'', ''d'', [], ''0'', ''n'', ''rev''] @ [])) 1 2 = Inl (AssertionError NoCharsLeft) \<and>
   get_entry ((reader_of (NUL # concat (map row_text [[''d'', ''n'', ''id'', ''f'', ''sha'', ''10'', ''y'', ''st'', ''d'', [], ''0'', ''n'', ''rev'']]) @ nul_fields [''d'', ''n'', ''id'', ''f'', ''sha'', ''10'', ''y'', ''st'', ''d'', [], ''0'', ''n'', ''rev''] @ []))\<lparr>cur_cstr := Some (1 + length (concat (map row_text [[''d'', ''n'', ''id'', ''f'', ''sha'', ''10'', ''y'', ''st'', ''d'', [], ''0'', ''n'', ''rev'']])))\<rparr>) 2 ''d'' =
     Inl (AssertionError NoCharsLeft) \<and>
   read_dirblocks (reader_of (NUL # concat (map row_text [[''d'', ''n'', ''id'', ''f'', ''sha'', ''10'', ''y'', ''st'', ''d'', [], ''0'', ''n'', ''rev'']]) @ nul_fields [''d'', ''n'', ''id'', ''f'', ''sha'', ''10'', ''y'', ''st'', ''d'', [], ''0'', ''n'', ''rev''] @ (''x'' @ [NUL]))) 1 2 = Inl (AssertionError BadParse) \<and>
   get_entry ((reader_of (NUL # concat (map row_text [[''d'', ''n'', ''id'', ''f'', ''sha'', ''10'', ''y'', ''st'', ''d'', [], ''0'', ''n'', ''rev'']]) @ nul_fields [''d'', ''n'', ''id'', ''f'', ''sha'', ''10'', ''y'', ''st'', ''d'', [], ''0'', ''n'', ''rev''] @ (''x'' @ [NUL])))\<lparr>cur_cstr := Some (1 + length (concat (map row_text [[''d'', ''n'', ''id'', ''f'', ''sha'', ''10'', ''y'', ''st'', ''d'', [], ''0'', ''n'', ''rev'']])))\<rparr>) 2 ''d'' =
     Inl (AssertionError BadParse) \<and>
   get_entry ((reader_of (NUL # concat (map row_text [[''d'', ''n'', ''id'', ''f'', ''sha'', ''10'', ''y'', ''st'', ''d'', [], ''0'', ''n'', ''rev'']]) @ nul_fields [''d'', ''n'', ''id'', ''f'', ''sha'', ''10'', ''y'', ''st'', ''d'', [], ''0'', ''n'', ''rev''] @ [LF, NUL]))\<lparr>cur_cstr := Some (1 + length (concat (map row_text [[''d'', ''n'', ''id'', ''f'', ''sha'', ''10'', ''y'', ''st'', ''d'', [], ''0'', ''n'', ''rev'']])))\<rparr>) 2 ''d'' =
     Inr (((''d'', ''n'', ''id''), [(''f'', ''sha'', 10, True, ''st''), (''d'', [], 0, False, ''rev'')]), ''d'', False,
          (reader_of (NUL # concat (map row_text [[''d'', ''n'', ''id'', ''f'', ''sha'', ''10'', ''y'', ''st'', ''d'', [], ''0'', ''n'', ''rev'']]) @ nul_fields [''d'', ''n'', ''id'', ''f'', ''sha'', ''10'', ''y'', ''st'', ''d'', [], ''0'', ''n'', ''rev''] @ [LF, NUL]))\<lparr>cur_cstr := Some ((1 + length (concat (map row_text [[''d'', ''n'', ''id'', ''f'', ''sha'', ''10'', ''y'', ''st'', ''d'', [], ''0'', ''n'', ''rev'']]))) + length (row_text [''d'', ''n'', ''id'', ''f'', ''sha'', ''10'', ''y'', ''st'', ''d'', [], ''0'', ''n'', ''rev'']))\<rparr>)"
proof -
  let ?fs = "[''d'', ''n'', ''id'', ''f'', ''sha'', ''10'', ''y'', ''st'', ''d'', [], ''0'', ''n'', ''rev'']"
  have wf: "wf_row (nat (1 + 1)) ?fs" "list_all (wf_row (nat (1 + 1))) [?fs]" "in_c_int (1 + 1)"
    "in_c_int 2"
    by (simp_all add: wf_row_def in_c_int_def)
  have dr: "decode_row ?fs = ((''d'', ''n'', ''id''), [(''f'', ''sha'', 10, True, ''st''), (''d'', [], 0, False, ''rev'')])"
    by code_simp
  have two: "nat (1 + 1) = 2" by simp
  note short = get_entry_trailing_field[of "NUL # concat (map row_text [[''d'', ''n'', ''id'', ''f'', ''sha'', ''10'', ''y'', ''st'', ''d'', [], ''0'', ''n'', ''rev'']]) @ nul_fields [''d'', ''n'', ''id'', ''f'', ''sha'', ''10'', ''y'', ''st'', ''d'', [], ''0'', ''n'', ''rev''] @ []" "[]" "[?fs]"
      ?fs "[]" 1 "(1 + length (concat (map row_text [[''d'', ''n'', ''id'', ''f'', ''sha'', ''10'', ''y'', ''st'', ''d'', [], ''0'', ''n'', ''rev'']])))" "''d''" 2,
      OF _ _ wf(2) wf(1) wf(3)]
  note bad = get_entry_trailing_field[of "NUL # concat (map row_text [[''d'', ''n'', ''id'', ''f'', ''sha'', ''10'', ''y'', ''st'', ''d'', [], ''0'', ''n'', ''rev'']]) @ nul_fields [''d'', ''n'', ''id'', ''f'', ''sha'', ''10'', ''y'', ''st'', ''d'', [], ''0'', ''n'', ''rev''] @ (''x'' @ [NUL])" "[]" "[?fs]"
      ?fs "''x'' @ [NUL]" 1 "(1 + length (concat (map row_text [[''d'', ''n'', ''id'', ''f'', ''sha'', ''10'', ''y'', ''st'', ''d'', [], ''0'', ''n'', ''rev'']])))" "''d''" 2, OF _ _ wf(2) wf(1) wf(3)]
  note good = get_entry_trailing_field[of "NUL # concat (map row_text [[''d'', ''n'', ''id'', ''f'', ''sha'', ''10'', ''y'', ''st'', ''d'', [], ''0'', ''n'', ''rev'']]) @ nul_fields [''d'', ''n'', ''id'', ''f'', ''sha'', ''10'', ''y'', ''st'', ''d'', [], ''0'', ''n'', ''rev''] @ [LF, NUL]" "[]" "[?fs]"
      ?fs "[LF, NUL]" 1 "(1 + length (concat (map row_text [[''d'', ''n'', ''id'', ''f'', ''sha'', ''10'', ''y'', ''st'', ''d'', [], ''0'', ''n'', ''rev'']])))" "''d''" 2, OF _ _ wf(2) wf(1) wf(3)]
  have s: "read_dirblocks (reader_of (NUL # concat (map row_text [[''d'', ''n'', ''id'', ''f'', ''sha'', ''10'', ''y'', ''st'', ''d'', [], ''0'', ''n'', ''rev'']]) @ nul_fields [''d'', ''n'', ''id'', ''f'', ''sha'', ''10'', ''y'', ''st'', ''d'', [], ''0'', ''n'', ''rev''] @ [])) 1 2 = Inl (AssertionError NoCharsLeft) \<and>
   get_entry ((reader_of (NUL # concat (map row_text [[''d'', ''n'', ''id'', ''f'', ''sha'', ''10'', ''y'', ''st'', ''d'', [], ''0'', ''n'', ''rev'']]) @ nul_fields [''d'', ''n'', ''id'', ''f'', ''sha'', ''10'', ''y'', ''st'', ''d'', [], ''0'', ''n'', ''rev''] @ []))\<lparr>cur_cstr := Some (1 + length (concat (map row_text [[''d'', ''n'', ''id'', ''f'', ''sha'', ''10'', ''y'', ''st'', ''d'', [], ''0'', ''n'', ''rev'']])))\<rparr>) 2 ''d'' =
     Inl (AssertionError NoCharsLeft)"
    using short wf(4) unfolding two by simp
  have b: "read_dirblocks (reader_of (NUL # concat (map row_text [[''d'', ''n'', ''id'', ''f'', ''sha'', ''10'', ''y'', ''st'', ''d'', [], ''0'', ''n'', ''rev'']]) @ nul_fields [''d'', ''n'', ''id'', ''f'', ''sha'', ''10'', ''y'', ''st'', ''d'', [], ''0'', ''n'', ''rev''] @ (''x'' @ [NUL]))) 1 2 = Inl (AssertionError BadParse) \<and>
   get_entry ((reader_of (NUL # concat (map row_text [[''d'', ''n'', ''id'', ''f'', ''sha'', ''10'', ''y'', ''st'', ''d'', [], ''0'', ''n'', ''rev'']]) @ nul_fields [''d'', ''n'', ''id'', ''f'', ''sha'', ''10'', ''y'', ''st'', ''d'', [], ''0'', ''n'', ''rev''] @ (''x'' @ [NUL])))\<lparr>cur_cstr := Some (1 + length (concat (map row_text [[''d'', ''n'', ''id'', ''f'', ''sha'', ''10'', ''y'', ''st'', ''d'', [], ''0'', ''n'', ''rev'']])))\<rparr>) 2 ''d'' =
     Inl (AssertionError BadParse)"
    using bad wf(4) unfolding two by simp
  have g: "get_entry ((reader_of (NUL # concat (map row_text [[''d'', ''n'', ''id'', ''f'', ''sha'', ''10'', ''y'', ''st'', ''d'', [], ''0'', ''n'', ''rev'']]) @ nul_fields [''d'', ''n'', ''id'', ''f'', ''sha'', ''10'', ''y'', ''st'', ''d'', [], ''0'', ''n'', ''rev''] @ [LF, NUL]))\<lparr>cur_cstr := Some (1 + length (concat (map row_text [[''d'', ''n'', ''id'', ''f'', ''sha'', ''10'', ''y'', ''st'', ''d'', [], ''0'', ''n'', ''rev'']])))\<rparr>) 2 ''d'' =
     Inr (((''d'', ''n'', ''id''), [(''f'', ''sha'', 10, True, ''st''), (''d'', [], 0, False, ''rev'')]), ''d'', False,
          (reader_of (NUL # concat (map row_text [[''d'', ''n'', ''id'', ''f'', ''sha'', ''10'', ''y'', ''st'', ''d'', [], ''0'', ''n'', ''rev'']]) @ nul_fields [''d'', ''n'', ''id'', ''f'', ''sha'', ''10'', ''y'', ''st'', ''d'', [], ''0'', ''n'', ''rev''] @ [LF, NUL]))\<lparr>cur_cstr := Some ((1 + length (concat (map row_text [[''d'', ''n'', ''id'', ''f'', ''sha'', ''10'', ''y'', ''st'', ''d'', [], ''0'', ''n'', ''rev'']]))) + length (row_text [''d'', ''n'', ''id'', ''f'', ''sha'', ''10'', ''y'', ''st'', ''d'', [], ''0'', ''n'', ''rev'']))\<rparr>)"
    using good unfolding two dr by simp
  show ?thesis using s b g by (intro conjI) simp_all
qed

text \<open>
  C4, as stated, fails for an expected count outside the range of a C \<open>int\<close>: with two
  rows in the text and \<open>2^32 + 2\<close> expected, the call ends with \<open>OverflowError\<close>, which
  is no \<open>AssertionError\<close>, and reads no row. So it does with three rows expected when
  the number of trees is outside that range.
\<close>

theorem parse_dirblocks_entry_count_counterexample:
  "parse_dirblocks Inr
     (reader_of (NUL # concat (map row_text (replicate 2 [[], ''x'', ''i'', ''f'', ''s'', ''1'', ''n'', ''p''])))) 0 4294967298 =
   Inl OverflowError \<and>
   parse_dirblocks Inr
     (reader_of (NUL # concat (map row_text (replicate 2 [[], ''x'', ''i'', ''f'', ''s'', ''1'', ''n'', ''p''])))) 2147483647 3 =
   Inl OverflowError"
  by (simp add: parse_dirblocks_def read_dirblocks_def c_int_def in_c_int_def)

theorem parse_dirblocks_entry_count_witness:
  "parse_dirblocks Inr
     (reader_of (NUL # concat (map row_text (replicate 4 [[], ''x'', ''i'', ''f'', ''s'', ''1'', ''n'', ''p''])))) 0 5 =
   Inl (AssertionError WrongEntryCount) \<and>
   parse_dirblocks Inr
     (reader_of (NUL # concat (map row_text (replicate 4 [[], ''x'', ''i'', ''f'', ''s'', ''1'', ''n'', ''p''])))) 0 4 =
   Inr [([], replicate 4 (([], ''x'', ''i''), [(''f'', ''s'', 1, False, ''p'')])), ([], [])]"
proof -
  let ?fs = "[[], ''x'', ''i'', ''f'', ''s'', ''1'', ''n'', ''p'']"
  let ?r = "reader_of (NUL # concat (map row_text (replicate 4 ?fs)))"
  have e: "end_cstr ?r = length (rtext ?r)" by (simp add: reader_of_def)
  have pre: "in_c_int (0 + 1) \<and> in_c_int ne \<and> cur_cstr ?r = Some 0 \<and>
            drop 0 (rtext ?r) = [] @ NUL # concat (map row_text (replicate 4 ?fs)) \<and>
            NUL \<notin> set [] \<and> list_all (wf_row (nat (0 + 1))) (replicate 4 ?fs)"
    if "in_c_int ne" for ne
    using that by (simp add: reader_of_def in_c_int_def wf_row_def list_all_iff)
  have bl: "blocks_of (map decode_row (replicate 4 ?fs)) =
      [([], replicate 4 (([], ''x'', ''i''), [(''f'', ''s'', 1, False, ''p'')])), ([], [])]"
    by code_simp
  have five: "parse_dirblocks Inr ?r 0 5 = Inl (AssertionError WrongEntryCount)"
    using parse_dirblocks_entry_count[OF e, of 0 5 Inr, THEN conjunct2, THEN conjunct1,
        rule_format, OF pre]
    by (simp add: in_c_int_def)
  have four: "parse_dirblocks Inr ?r 0 4 = Inr (blocks_of (map decode_row (replicate 4 ?fs)))"
    using parse_dirblocks_entry_count[OF e, of 0 4 Inr, THEN conjunct2, THEN conjunct1,
        rule_format, OF pre]
    by (simp add: in_c_int_def)
  show ?thesis using five four unfolding bl by (rule conjI)
qed

text \<open>
  C10, as stated, fails: the reader does not check that the rows are sorted. In a text
  whose first row has the directory name \<open>a\<close> and whose second row has the empty
  directory name, the second row opens a fourth block and block 0 stays empty.
\<close>

theorem read_dirblocks_empty_dirname_counterexample:
  "read_dirblocks
     (reader_of (nul_fields ([] # [''a'', ''x'', ''i'', ''f'', ''s'', ''1'', ''n'', ''p'', [LF]]
                            @ [[], ''y'', ''j'', ''f'', ''s'', ''1'', ''n'', ''p'', [LF]]))) 0 2 =
   Inr [([], []), ([], []),
        (''a'', [((''a'', ''x'', ''i''), [(''f'', ''s'', 1, False, ''p'')])]),
        ([], [(([], ''y'', ''j''), [(''f'', ''s'', 1, False, ''p'')])])]"
  by code_simp

theorem read_dirblocks_first_blocks_witness:
  "read_dirblocks
     (reader_of (NUL # concat (map row_text [[[], ''x'', ''i'', ''f'', ''s'', ''1'', ''n'', ''p''],
        [''d'', ''y'', ''j'', ''f'', ''s'', ''1'', ''n'', ''p''],
        [[], ''z'', ''k'', ''f'', ''s'', ''1'', ''n'', ''p'']]))) 0 3 =
   Inr [([], [(([], ''x'', ''i''), [(''f'', ''s'', 1, False, ''p'')])]), ([], []),
        (''d'', [((''d'', ''y'', ''j''), [(''f'', ''s'', 1, False, ''p'')])]),
        ([], [(([], ''z'', ''k''), [(''f'', ''s'', 1, False, ''p'')])])]"
proof -
  let ?fss = "[[[], ''x'', ''i'', ''f'', ''s'', ''1'', ''n'', ''p''],
        [''d'', ''y'', ''j'', ''f'', ''s'', ''1'', ''n'', ''p''],
        [[], ''z'', ''k'', ''f'', ''s'', ''1'', ''n'', ''p'']]"
  let ?r = "reader_of (NUL # concat (map row_text ?fss))"
  have e: "end_cstr ?r = length (rtext ?r)" by (simp add: reader_of_def)
  have c: "cur_cstr ?r = Some 0" by (simp add: reader_of_def)
  have d: "drop 0 (rtext ?r) = [] @ NUL # concat (map row_text ?fss)"
    by (simp add: reader_of_def)
  have wf: "list_all (wf_row (nat (0 + 1))) ?fss" by (simp add: wf_row_def)
  have rows: "map decode_row ?fss = [(([], ''x'', ''i''), [(''f'', ''s'', 1, False, ''p'')]),
        ((''d'', ''y'', ''j''), [(''f'', ''s'', 1, False, ''p'')]),
        (([], ''z'', ''k''), [(''f'', ''s'', 1, False, ''p'')])]"
    by code_simp
  have ok: "parse_dirblocks Inr ?r 0 3 = Inr (blocks_of (map decode_row ?fss))"
    using read_dirblocks_rows[OF e c d _ wf, of 3]
    by (simp add: parse_dirblocks_def in_c_int_def)
  have "read_dirblocks ?r 0 3 =
      Inr (([], takeWhile (\<lambda>e. row_dirname e = []) (map decode_row ?fss)) # ([], [])
           # runs (dropWhile (\<lambda>e. row_dirname e = []) (map decode_row ?fss)))"
    using read_dirblocks_first_blocks[OF e ok, THEN conjunct2, rule_format, of 0 "[]" ?fss]
      c d wf
    by simp
  then show ?thesis unfolding rows by (simp add: row_dirname_def)
qed

end
